theory Spec2Isabelle
  imports Main "HOL-Library.Multiset"
begin

section \<open>The result channel\<close>

text \<open>
  The shared state behind a \<^verbatim>\<open>std::promise\<close>/\<^verbatim>\<open>std::future\<close> pair: not yet
  fulfilled, fulfilled without a value (\<^verbatim>\<open>future<void>\<close>), fulfilled with a value, or
  holding the exception that the stored callable raised.
\<close>

datatype ('e, 'r) shared_state = NotReady | Ready_void | Ready_value 'r | Ready_exception 'e

text \<open>
  A \<^verbatim>\<open>std::future\<close> either refers to a shared state (by its address) or, when it is
  default constructed (\<^verbatim>\<open>return {}\<close>), to none; \<^verbatim>\<open>valid()\<close> tells the two apart.
\<close>

datatype future = Invalid | Future nat

fun valid :: "future \<Rightarrow> bool" where
  "valid Invalid = False"
| "valid (Future p) = True"

text \<open>
  A C++ call runs in the program's world \<open>'w\<close> (everything the user's callables can read
  and write), may change it, and either returns a value or throws (\<open>Inl\<close>).
\<close>

type_synonym ('w, 'e, 'x) call = "'w \<Rightarrow> ('e + 'x) \<times> 'w"

text \<open>
  The callable stored in a \<^verbatim>\<open>std::packaged_task<ReturnType()>\<close> (built by
  \<^verbatim>\<open>dispatch\<close>) or in a \<^verbatim>\<open>std::packaged_task<void()>\<close> (built by
  \<^verbatim>\<open>dispatchCallback\<close>).
\<close>

datatype ('w, 'e, 'r) stored = Returns "('w, 'e, 'r) call" | Returns_void "('w, 'e, unit) call"

text \<open>
  A packaged task is its stored callable and the address of its shared state. The queue holds
  closures \<^verbatim>\<open>[newTask]() { (*newTask)(); }\<close> over a shared pointer to it; the packaged task
  is never changed after its construction (only its shared state is), so the closure is
  modelled by the packaged task itself. A \<^verbatim>\<open>std::function<void()>\<close> is such a closure
  or empty (\<open>None\<close>).
\<close>

datatype ('w, 'e, 'r) packaged_task =
  Packaged_task (stored_task: "('w, 'e, 'r) stored") (state_ptr: nat)

section \<open>Threads\<close>

text \<open>
  Where a worker thread stands in the lambda of \<^verbatim>\<open>start\<close>:
  \<^item> \<open>Loop_top\<close>: at the head of \<^verbatim>\<open>for (;;)\<close>, before it has locked the mutex; a thread
    that was just created is here;
  \<^item> \<open>Blocked\<close>: inside \<^verbatim>\<open>taskCond.wait\<close>, the predicate was false, the mutex is released;
  \<^item> \<open>Woken\<close>: inside \<^verbatim>\<open>taskCond.wait\<close>, woken up, about to lock the mutex and test the
    predicate again;
  \<^item> \<open>Popped task\<close>: past the critical section, holding the function object it moved out of
    the queue;
  \<^item> \<open>Returned\<close>: the lambda has returned;
  \<^item> \<open>Terminated\<close>: an exception left the lambda (\<^verbatim>\<open>std::terminate\<close>).
\<close>

datatype ('w, 'e, 'r) wstate =
  Loop_top | Blocked | Woken | Popped "('w, 'e, 'r) packaged_task option" | Returned | Terminated

text \<open>
  A \<^verbatim>\<open>std::thread\<close> object: default constructed or already joined (\<open>Not_a_thread\<close>), or
  the handle of a thread of execution. \<^verbatim>\<open>joinable()\<close> holds for every handle of a thread
  of execution, from its construction on, whether the thread has run or has finished.
\<close>

datatype ('w, 'e, 'r) thread = Not_a_thread | Thread "('w, 'e, 'r) wstate"

fun joinable :: "('w, 'e, 'r) thread \<Rightarrow> bool" where
  "joinable Not_a_thread = False"
| "joinable (Thread st) = True"

section \<open>The pool\<close>

text \<open>
  The members of \<^verbatim>\<open>TaskManager\<close> (\<open>isRunning\<close>, \<open>poolSize\<close>, \<open>tasks\<close>, \<open>workers\<close>),
  and what its tasks act on: the heap of shared states with its allocation pointer, and the
  world of the user's callables. \<^verbatim>\<open>taskMutex\<close> has no field: every section of the code
  that holds it is one atomic step of the model.
\<close>

record ('w, 'e, 'r) pool =
  isRunning :: bool
  poolSize :: nat
  tasks :: "('w, 'e, 'r) packaged_task option list"
  workers :: "('w, 'e, 'r) thread list"
  shared :: "nat \<Rightarrow> ('e, 'r) shared_state"
  next_shared :: nat
  world :: 'w

text \<open>
  The constructor. \<^verbatim>\<open>workers {poolSize}\<close> cannot build a list of one thread from a number
  (the converting constructor of \<^verbatim>\<open>std::thread\<close> is explicit), so it builds \<open>size_arg\<close>
  default-constructed threads, \<open>size_arg\<close> being the argument \<^verbatim>\<open>size\<close>. \<open>poolSize\<close> is
  replaced afterwards when it is zero; \<open>hardware_concurrency\<close> stands for
  \<^verbatim>\<open>std::thread::hardware_concurrency()\<close>. The heap of shared states is empty and the
  world is the one given.
\<close>

definition TaskManager :: "nat \<Rightarrow> nat \<Rightarrow> 'w \<Rightarrow> ('w, 'e, 'r) pool" where
  "TaskManager size_arg hardware_concurrency w =
     \<lparr> isRunning = False,
       poolSize = (if size_arg = 0 then hardware_concurrency else size_arg),
       tasks = [],
       workers = replicate size_arg Not_a_thread,
       shared = (\<lambda>p. NotReady),
       next_shared = 0,
       world = w \<rparr>"

subsection \<open>The worker\<close>

definition set_worker ::
  "nat \<Rightarrow> ('w, 'e, 'r) wstate \<Rightarrow> ('w, 'e, 'r) pool \<Rightarrow> ('w, 'e, 'r) pool" where
  "set_worker i st s = s\<lparr>workers := (workers s)[i := Thread st]\<rparr>"

text \<open>
  The critical section of the worker: \<^verbatim>\<open>wait\<close> returns when its predicate
  \<^verbatim>\<open>!isRunning || !tasks.empty()\<close> holds and blocks otherwise; then the worker returns if
  \<^verbatim>\<open>!isRunning\<close>, and otherwise moves the front of the queue out and pops it. In that last
  branch the predicate has made the queue non-empty.
\<close>

definition critical_section :: "nat \<Rightarrow> ('w, 'e, 'r) pool \<Rightarrow> ('w, 'e, 'r) pool" where
  "critical_section i s =
     (if \<not> (\<not> isRunning s \<or> tasks s \<noteq> []) then set_worker i Blocked s
      else if \<not> isRunning s then set_worker i Returned s
      else set_worker i (Popped (hd (tasks s))) (s\<lparr>tasks := tl (tasks s)\<rparr>))"

text \<open>
  \<^verbatim>\<open>packaged_task::operator()\<close>: it throws \<^verbatim>\<open>future_error\<close> (\<open>None\<close>) when the stored
  task has been invoked already; otherwise it runs the stored callable and makes the shared
  state ready with the value returned or the exception thrown.
\<close>

fun run_stored :: "('w, 'e, 'r) stored \<Rightarrow> 'w \<Rightarrow> ('e, 'r) shared_state \<times> 'w" where
  "run_stored (Returns g) w =
     (case g w of (Inl e, w') \<Rightarrow> (Ready_exception e, w') | (Inr r, w') \<Rightarrow> (Ready_value r, w'))"
| "run_stored (Returns_void g) w =
     (case g w of (Inl e, w') \<Rightarrow> (Ready_exception e, w') | (Inr u, w') \<Rightarrow> (Ready_void, w'))"

definition invoke_packaged ::
  "('w, 'e, 'r) packaged_task \<Rightarrow> ('w, 'e, 'r) pool \<Rightarrow> ('w, 'e, 'r) pool option" where
  "invoke_packaged t s =
     (case shared s (state_ptr t) of
        NotReady \<Rightarrow>
          (case run_stored (stored_task t) (world s) of
             (out, w') \<Rightarrow> Some (s\<lparr>shared := (shared s)(state_ptr t := out), world := w'\<rparr>))
      | _ \<Rightarrow> None)"

text \<open>
  After the critical section: the sanity check \<^verbatim>\<open>task != nullptr\<close>, the call, and back to
  the head of the loop. An exception out of the call leaves the lambda.
\<close>

definition execute ::
  "nat \<Rightarrow> ('w, 'e, 'r) packaged_task option \<Rightarrow> ('w, 'e, 'r) pool \<Rightarrow> ('w, 'e, 'r) pool" where
  "execute i task s =
     (case task of
        None \<Rightarrow> set_worker i Loop_top s
      | Some t \<Rightarrow>
          (case invoke_packaged t s of
             None \<Rightarrow> set_worker i Terminated s
           | Some s' \<Rightarrow> set_worker i Loop_top s'))"

text \<open>One step of the thread behind \<open>workers ! i\<close>; a thread that cannot move leaves the
  state as it is.\<close>

definition worker_step :: "nat \<Rightarrow> ('w, 'e, 'r) pool \<Rightarrow> ('w, 'e, 'r) pool" where
  "worker_step i s =
     (if i < length (workers s) then
        (case workers s ! i of
           Thread Loop_top \<Rightarrow> critical_section i s
         | Thread Woken \<Rightarrow> critical_section i s
         | Thread (Popped task) \<Rightarrow> execute i task s
         | _ \<Rightarrow> s)
      else s)"

subsection \<open>The condition variable\<close>

fun wake :: "('w, 'e, 'r) thread \<Rightarrow> ('w, 'e, 'r) thread" where
  "wake (Thread Blocked) = Thread Woken"
| "wake t = t"

text \<open>\<^verbatim>\<open>notify_all\<close> wakes every blocked thread. \<^verbatim>\<open>notify_one\<close> wakes one of them;
  which one is left to the implementation, the model takes the first.\<close>

definition notify_all :: "('w, 'e, 'r) pool \<Rightarrow> ('w, 'e, 'r) pool" where
  "notify_all s = s\<lparr>workers := map wake (workers s)\<rparr>"

fun wake_first :: "('w, 'e, 'r) thread list \<Rightarrow> ('w, 'e, 'r) thread list" where
  "wake_first [] = []"
| "wake_first (Thread Blocked # ts) = Thread Woken # ts"
| "wake_first (t # ts) = t # wake_first ts"

definition notify_one :: "('w, 'e, 'r) pool \<Rightarrow> ('w, 'e, 'r) pool" where
  "notify_one s = s\<lparr>workers := wake_first (workers s)\<rparr>"

text \<open>A blocked thread may also wake up without any notification.\<close>

definition spurious_wakeup :: "nat \<Rightarrow> ('w, 'e, 'r) pool \<Rightarrow> ('w, 'e, 'r) pool" where
  "spurious_wakeup i s =
     (if i < length (workers s) then s\<lparr>workers := (workers s)[i := wake (workers s ! i)]\<rparr> else s)"

subsection \<open>start, stop and the destructor\<close>

text \<open>
  The loop \<^verbatim>\<open>while (! newWorker.joinable()) yield();\<close>: nothing in it, and no other
  thread, changes the handle, so it either falls through or spins for ever (\<open>None\<close>).
\<close>

partial_function (option) await_joinable :: "('w, 'e, 'r) thread \<Rightarrow> unit option" where
  "await_joinable t = (if \<not> joinable t then await_joinable t else Some ())"

text \<open>The loop \<^verbatim>\<open>for (i = 0u; i < poolSize; i++)\<close> of \<^verbatim>\<open>start\<close>, by the number of
  rounds left: \<^verbatim>\<open>emplace_back\<close> creates a thread, which stands at the head of its loop.
  \<open>start\<close> is taken as one step: the new threads take theirs after it.\<close>

fun spawn :: "nat \<Rightarrow> ('w, 'e, 'r) pool \<Rightarrow> ('w, 'e, 'r) pool option" where
  "spawn 0 s = Some s"
| "spawn (Suc n) s =
     (let s1 = s\<lparr>workers := workers s @ [Thread Loop_top]\<rparr>;
          newWorker = last (workers s1)
      in case await_joinable newWorker of None \<Rightarrow> None | Some u \<Rightarrow> spawn n s1)"

definition start :: "('w, 'e, 'r) pool \<Rightarrow> ('w, 'e, 'r) pool option" where
  "start s = spawn (poolSize s) (s\<lparr>isRunning := True\<rparr>)"

text \<open>The critical section of \<^verbatim>\<open>stop\<close>.\<close>

definition shutdown_signal :: "('w, 'e, 'r) pool \<Rightarrow> ('w, 'e, 'r) pool" where
  "shutdown_signal s = notify_all (s\<lparr>isRunning := False\<rparr>)"

text \<open>
  \<^verbatim>\<open>worker.join()\<close> blocks its caller until the thread has finished. In the model the
  thread joined takes its steps meanwhile, and only this thread: until its lambda has
  returned, or for ever (\<open>None\<close>) when it is blocked in \<^verbatim>\<open>wait\<close> or was terminated. The
  handle is not joinable afterwards.
\<close>

fun runnable :: "('w, 'e, 'r) thread \<Rightarrow> bool" where
  "runnable (Thread Loop_top) = True"
| "runnable (Thread Woken) = True"
| "runnable (Thread (Popped task)) = True"
| "runnable t = False"

partial_function (option) run_to_return ::
  "nat \<Rightarrow> ('w, 'e, 'r) pool \<Rightarrow> ('w, 'e, 'r) pool option" where
  "run_to_return i s =
     (if workers s ! i = Thread Returned then Some s
      else if runnable (workers s ! i) then run_to_return i (worker_step i s)
      else run_to_return i s)"

definition join :: "nat \<Rightarrow> ('w, 'e, 'r) pool \<Rightarrow> ('w, 'e, 'r) pool option" where
  "join i s =
     (case run_to_return i s of
        None \<Rightarrow> None
      | Some s' \<Rightarrow> Some (s'\<lparr>workers := (workers s')[i := Not_a_thread]\<rparr>))"

text \<open>The loop \<^verbatim>\<open>for (auto& worker: workers)\<close> of \<^verbatim>\<open>stop\<close>, from index \<open>i\<close> on, with
  \<open>n\<close> handles left.\<close>

fun join_workers :: "nat \<Rightarrow> nat \<Rightarrow> ('w, 'e, 'r) pool \<Rightarrow> ('w, 'e, 'r) pool option" where
  "join_workers i 0 s = Some s"
| "join_workers i (Suc n) s =
     (if joinable (workers s ! i)
      then (case join i s of None \<Rightarrow> None | Some s' \<Rightarrow> join_workers (Suc i) n s')
      else join_workers (Suc i) n s)"

definition stop :: "('w, 'e, 'r) pool \<Rightarrow> ('w, 'e, 'r) pool option" where
  "stop s = (let s1 = shutdown_signal s in join_workers 0 (length (workers s1)) s1)"

definition destroy :: "('w, 'e, 'r) pool \<Rightarrow> ('w, 'e, 'r) pool option" where
  "destroy s = (if isRunning s then stop s else Some s)"

subsection \<open>dispatch and dispatchCallback\<close>

text \<open>
  The parameters of \<^verbatim>\<open>dispatch\<close> and \<^verbatim>\<open>dispatchCallback\<close> are forwarding references
  (\<^verbatim>\<open>FuncType&&\<close>, \<^verbatim>\<open>CallbackType&&\<close>, \<^verbatim>\<open>CallerType&&\<close>, \<^verbatim>\<open>ArgsType&&...\<close>), and the
  lambdas they build capture them by reference (\<^verbatim>\<open>[&]\<close>). A reference is modelled by what
  it reads: the value that the object it is bound to holds in a given world. A callable handle
  is a callable or null (\<open>None\<close>, a null function pointer or member pointer); the argument
  pack is one value \<open>args\<close>.
\<close>

type_synonym ('w, 'v) reference = "'w \<Rightarrow> 'v"

text \<open>
  The call expression \<^verbatim>\<open>f(args...)\<close> and the call \<^verbatim>\<open>std::mem_fn(f)(inst, args...)\<close>.
  A call through a null handle is undefined behaviour in C++; the model says nothing about
  it: the two functions have no equation for \<open>None\<close>.
\<close>

fun call_through :: "('a \<Rightarrow> ('w, 'e, 'x) call) option \<Rightarrow> 'a \<Rightarrow> ('w, 'e, 'x) call" where
  "call_through (Some f) args = f args"

fun mem_fn :: "('i \<Rightarrow> 'a \<Rightarrow> ('w, 'e, 'x) call) option \<Rightarrow> 'i \<Rightarrow> 'a \<Rightarrow> ('w, 'e, 'x) call" where
  "mem_fn (Some f) inst args = f inst args"

text \<open>
  The three \<^verbatim>\<open>invoke\<close> overloads call a plain callable or a function pointer with the
  arguments, or a member pointer through \<^verbatim>\<open>std::mem_fn\<close> with the instance first.
\<close>

definition invoke :: "('a \<Rightarrow> ('w, 'e, 'x) call) option \<Rightarrow> 'a \<Rightarrow> ('w, 'e, 'x) call" where
  "invoke f args = call_through f args"

definition invoke_mem_fn ::
  "('i \<Rightarrow> 'a \<Rightarrow> ('w, 'e, 'x) call) option \<Rightarrow> 'i \<Rightarrow> 'a \<Rightarrow> ('w, 'e, 'x) call" where
  "invoke_mem_fn f inst args = mem_fn f inst args"

text \<open>\<^verbatim>\<open>std::make_shared<std::packaged_task<...>>\<close> allocates a packaged task with a
  fresh shared state; \<^verbatim>\<open>get_future\<close> hands out the future on that state.\<close>

definition make_shared_packaged_task ::
  "('w, 'e, 'r) stored \<Rightarrow> ('w, 'e, 'r) pool \<Rightarrow> ('w, 'e, 'r) packaged_task \<times> ('w, 'e, 'r) pool" where
  "make_shared_packaged_task g s =
     (Packaged_task g (next_shared s),
      s\<lparr>shared := (shared s)(next_shared s := NotReady), next_shared := Suc (next_shared s)\<rparr>)"

definition get_future :: "('w, 'e, 'r) packaged_task \<Rightarrow> future" where
  "get_future t = Future (state_ptr t)"

definition pushTask :: "('w, 'e, 'r) packaged_task \<Rightarrow> ('w, 'e, 'r) pool \<Rightarrow> ('w, 'e, 'r) pool" where
  "pushTask newTask s = notify_one (s\<lparr>tasks := tasks s @ [Some newTask]\<rparr>)"

text \<open>
  \<^verbatim>\<open>dispatch\<close>. The null check reads the handle as it is when \<^verbatim>\<open>dispatch\<close> is called.
  The lambda \<^verbatim>\<open>[&]() -> ReturnType { return invoke(function, args...); }\<close> reads the
  handle and the arguments through its references in the world \<open>w\<close> in which it is run.
\<close>

definition dispatch ::
  "('w, ('a \<Rightarrow> ('w, 'e, 'r) call) option) reference \<Rightarrow> ('w, 'a) reference \<Rightarrow>
   ('w, 'e, 'r) pool \<Rightarrow> future \<times> ('w, 'e, 'r) pool" where
  "dispatch function args s =
     (if function (world s) = None then (Invalid, s)
      else
        (case make_shared_packaged_task (Returns (\<lambda>w. invoke (function w) (args w) w)) s of
           (newTask, s1) \<Rightarrow> (get_future newTask, pushTask newTask s1)))"

text \<open>
  The body of the lambdas of \<^verbatim>\<open>dispatchCallback\<close>:
  \<^verbatim>\<open>auto result = <task call>; <callback call with result>; return;\<close>. An exception of
  the first call leaves the lambda at once; the callback call is made in the world that the
  task call has left; what the callback returns is dropped.
\<close>

definition task_then_callback ::
  "('w, 'e, 'x) call \<Rightarrow> ('x \<Rightarrow> ('w, 'e, 'c) call) \<Rightarrow> ('w, 'e, unit) call" where
  "task_then_callback task_call callback_call w =
     (case task_call w of
        (Inl e, w1) \<Rightarrow> (Inl e, w1)
      | (Inr result, w1) \<Rightarrow>
          (case callback_call result w1 of
             (Inl e, w2) \<Rightarrow> (Inl e, w2)
           | (Inr c, w2) \<Rightarrow> (Inr (), w2)))"

text \<open>The overload for a callback that is not a member pointer:
  \<^verbatim>\<open>auto result = invoke(function, args...); callback(result);\<close>\<close>

definition dispatchCallback ::
  "('w, ('a \<Rightarrow> ('w, 'e, 'x) call) option) reference \<Rightarrow>
   ('w, ('x \<Rightarrow> ('w, 'e, 'c) call) option) reference \<Rightarrow> ('w, 'a) reference \<Rightarrow>
   ('w, 'e, 'r) pool \<Rightarrow> future \<times> ('w, 'e, 'r) pool" where
  "dispatchCallback function callback args s =
     (if function (world s) = None \<or> callback (world s) = None then (Invalid, s)
      else
        (case make_shared_packaged_task
                (Returns_void
                   (task_then_callback (\<lambda>w. invoke (function w) (args w) w)
                      (\<lambda>result w. call_through (callback w) result w))) s of
           (newTask, s1) \<Rightarrow> (get_future newTask, pushTask newTask s1)))"

text \<open>The overload for a member callback and a task that is not a member pointer:
  \<^verbatim>\<open>auto result = invoke(function, args...); invoke(callback, instance, result);\<close>\<close>

definition dispatchCallback_member_callback ::
  "('w, ('a \<Rightarrow> ('w, 'e, 'x) call) option) reference \<Rightarrow>
   ('w, ('i \<Rightarrow> 'x \<Rightarrow> ('w, 'e, 'c) call) option) reference \<Rightarrow> ('w, 'i) reference \<Rightarrow>
   ('w, 'a) reference \<Rightarrow> ('w, 'e, 'r) pool \<Rightarrow> future \<times> ('w, 'e, 'r) pool" where
  "dispatchCallback_member_callback function callback instance args s =
     (if function (world s) = None \<or> callback (world s) = None then (Invalid, s)
      else
        (case make_shared_packaged_task
                (Returns_void
                   (task_then_callback (\<lambda>w. invoke (function w) (args w) w)
                      (\<lambda>result w. invoke_mem_fn (callback w) (instance w) result w))) s of
           (newTask, s1) \<Rightarrow> (get_future newTask, pushTask newTask s1)))"

text \<open>The overload for a member task and a member callback of the same instance:
  \<^verbatim>\<open>auto result = invoke(function, instance, args...); invoke(callback, instance, result);\<close>\<close>

definition dispatchCallback_member_both ::
  "('w, ('i \<Rightarrow> 'a \<Rightarrow> ('w, 'e, 'x) call) option) reference \<Rightarrow>
   ('w, ('i \<Rightarrow> 'x \<Rightarrow> ('w, 'e, 'c) call) option) reference \<Rightarrow> ('w, 'i) reference \<Rightarrow>
   ('w, 'a) reference \<Rightarrow> ('w, 'e, 'r) pool \<Rightarrow> future \<times> ('w, 'e, 'r) pool" where
  "dispatchCallback_member_both function callback instance args s =
     (if function (world s) = None \<or> callback (world s) = None then (Invalid, s)
      else
        (case make_shared_packaged_task
                (Returns_void
                   (task_then_callback (\<lambda>w. invoke_mem_fn (function w) (instance w) (args w) w)
                      (\<lambda>result w. invoke_mem_fn (callback w) (instance w) result w))) s of
           (newTask, s1) \<Rightarrow> (get_future newTask, pushTask newTask s1)))"

section \<open>Schedules\<close>

text \<open>
  The threads of the program interleave. A schedule is the list of the atomic steps taken, in
  order: a step of a worker (its critical section, or the call of the task it holds), a
  wake-up without notification, a caller that pushes a new packaged task (the part of
  \<^verbatim>\<open>dispatch\<close> and \<^verbatim>\<open>dispatchCallback\<close> behind the null check), or a thread outside the
  pool that changes the world (it assigns to a variable, or one of its temporaries ends). A
  schedule in which \<^verbatim>\<open>notify_one\<close> wakes another thread than the first has a wake-up for
  that thread.
\<close>

datatype ('w, 'e, 'r) action =
  Step nat | Wakeup nat | Push "('w, 'e, 'r) stored" | Assign "'w \<Rightarrow> 'w"

definition push :: "('w, 'e, 'r) stored \<Rightarrow> ('w, 'e, 'r) pool \<Rightarrow> ('w, 'e, 'r) pool" where
  "push g s = (case make_shared_packaged_task g s of (newTask, s1) \<Rightarrow> pushTask newTask s1)"

definition assign :: "('w \<Rightarrow> 'w) \<Rightarrow> ('w, 'e, 'r) pool \<Rightarrow> ('w, 'e, 'r) pool" where
  "assign u s = s\<lparr>world := u (world s)\<rparr>"

fun perform :: "('w, 'e, 'r) action \<Rightarrow> ('w, 'e, 'r) pool \<Rightarrow> ('w, 'e, 'r) pool" where
  "perform (Step i) s = worker_step i s"
| "perform (Wakeup i) s = spurious_wakeup i s"
| "perform (Push g) s = push g s"
| "perform (Assign u) s = assign u s"

text \<open>
  What an observer sees of a step: a task, named by the address of its shared state, is
  enqueued, is dequeued by a worker, or is called by a worker. An empty function object has no
  name and shows nothing.
\<close>

datatype event = Enqueued nat | Dequeued nat nat | Called nat nat

definition observe_critical :: "nat \<Rightarrow> ('w, 'e, 'r) pool \<Rightarrow> event list" where
  "observe_critical i s =
     (if isRunning s then
        (case tasks s of Some t # q \<Rightarrow> [Dequeued i (state_ptr t)] | _ \<Rightarrow> [])
      else [])"

fun observe :: "('w, 'e, 'r) action \<Rightarrow> ('w, 'e, 'r) pool \<Rightarrow> event list" where
  "observe (Step i) s =
     (if i < length (workers s) then
        (case workers s ! i of
           Thread Loop_top \<Rightarrow> observe_critical i s
         | Thread Woken \<Rightarrow> observe_critical i s
         | Thread (Popped (Some t)) \<Rightarrow> [Called i (state_ptr t)]
         | _ \<Rightarrow> [])
      else [])"
| "observe (Wakeup i) s = []"
| "observe (Push g) s = [Enqueued (next_shared s)]"
| "observe (Assign u) s = []"

text \<open>Running a schedule gives the events seen and the state reached.\<close>

fun run ::
  "('w, 'e, 'r) action list \<Rightarrow> event list \<times> ('w, 'e, 'r) pool \<Rightarrow> event list \<times> ('w, 'e, 'r) pool" where
  "run [] c = c"
| "run (a # as) (tr, s) = run as (tr @ observe a s, perform a s)"

fun enqueued :: "event list \<Rightarrow> nat list" where
  "enqueued [] = []"
| "enqueued (Enqueued p # tr) = p # enqueued tr"
| "enqueued (ev # tr) = enqueued tr"

fun dequeued :: "event list \<Rightarrow> nat list" where
  "dequeued [] = []"
| "dequeued (Dequeued i p # tr) = p # dequeued tr"
| "dequeued (ev # tr) = dequeued tr"

fun called :: "event list \<Rightarrow> nat list" where
  "called [] = []"
| "called (Called i p # tr) = p # called tr"
| "called (ev # tr) = called tr"

text \<open>One round of the workers: every thread of the pool takes one step, in the order of
  \<open>workers\<close>; and \<open>k\<close> rounds of a pool with \<open>n\<close> handles.\<close>

definition one_round :: "nat \<Rightarrow> ('w, 'e, 'r) action list" where
  "one_round n = map Step [0..<n]"

definition rounds :: "nat \<Rightarrow> nat \<Rightarrow> ('w, 'e, 'r) action list" where
  "rounds k n = concat (replicate k (one_round n))"

section \<open>Traces and invariants\<close>

text \<open>The events seen and the state reached when a schedule is run from a state.\<close>

definition trace :: "('w, 'e, 'r) action list \<Rightarrow> ('w, 'e, 'r) pool \<Rightarrow> event list" where
  "trace acts s = fst (run acts ([], s))"

definition final :: "('w, 'e, 'r) action list \<Rightarrow> ('w, 'e, 'r) pool \<Rightarrow> ('w, 'e, 'r) pool" where
  "final acts s = snd (run acts ([], s))"

text \<open>
  The tasks that are somewhere in the pool: \<open>queued\<close> are those in the queue, in order, and
  \<open>held\<close> those that a worker has popped and not yet called, in the order of the workers.
  \<open>live\<close> lists the addresses of their shared states.
\<close>

fun held_task :: "('w, 'e, 'r) thread \<Rightarrow> ('w, 'e, 'r) packaged_task option" where
  "held_task (Thread (Popped task)) = task"
| "held_task t = None"

fun somes :: "'a option list \<Rightarrow> 'a list" where
  "somes [] = []"
| "somes (None # xs) = somes xs"
| "somes (Some x # xs) = x # somes xs"

definition held :: "('w, 'e, 'r) pool \<Rightarrow> ('w, 'e, 'r) packaged_task list" where
  "held s = somes (map held_task (workers s))"

definition queued :: "('w, 'e, 'r) pool \<Rightarrow> ('w, 'e, 'r) packaged_task list" where
  "queued s = somes (tasks s)"

definition live :: "('w, 'e, 'r) pool \<Rightarrow> nat list" where
  "live s = map state_ptr (queued s @ held s)"

text \<open>
  A state is well formed when no worker was terminated by an exception and the tasks in the
  pool have pairwise different shared states, all allocated and none ready yet. Every state
  that a pool reaches from its construction is well formed (\<open>started_consistent\<close>,
  \<open>consistent_run\<close> and \<open>stop_joins_all\<close> below).
\<close>

definition well_formed :: "('w, 'e, 'r) pool \<Rightarrow> bool" where
  "well_formed s \<longleftrightarrow>
     Thread Terminated \<notin> set (workers s) \<and> distinct (live s) \<and>
     (\<forall>p \<in> set (live s). p < next_shared s \<and> shared s p = NotReady)"

text \<open>
  The invariant that ties the events seen so far to the state: the tasks enqueued are those
  dequeued followed by those still queued; the tasks dequeued are those called together with
  those held; no task was enqueued twice; the tasks called have a ready shared state.
\<close>

definition consistent :: "event list \<Rightarrow> ('w, 'e, 'r) pool \<Rightarrow> bool" where
  "consistent tr s \<longleftrightarrow>
     well_formed s \<and> distinct (enqueued tr) \<and>
     enqueued tr = dequeued tr @ map state_ptr (queued s) \<and>
     mset (dequeued tr) = mset (called tr) + mset (map state_ptr (held s)) \<and>
     (\<forall>p \<in> set (enqueued tr). p < next_shared s) \<and>
     (\<forall>p \<in> set (called tr). shared s p \<noteq> NotReady)"

text \<open>A pool with at most one worker thread, and the invariant of its traces: the tasks are
  called in the order in which they are dequeued.\<close>

definition single_worker :: "('w, 'e, 'r) pool \<Rightarrow> bool" where
  "single_worker s \<longleftrightarrow> length (filter joinable (workers s)) \<le> 1"

definition in_order :: "event list \<Rightarrow> ('w, 'e, 'r) pool \<Rightarrow> bool" where
  "in_order tr s \<longleftrightarrow> dequeued tr = called tr @ map state_ptr (held s)"

text \<open>A pool that runs and was never stopped: no worker has returned.\<close>

definition running :: "('w, 'e, 'r) pool \<Rightarrow> bool" where
  "running s \<longleftrightarrow> isRunning s \<and> Thread Returned \<notin> set (workers s)"

text \<open>The states between the critical section of \<open>stop\<close> and the end of its joins.\<close>

definition stopping :: "('w, 'e, 'r) pool \<Rightarrow> bool" where
  "stopping s \<longleftrightarrow> \<not> isRunning s \<and> well_formed s \<and> Thread Blocked \<notin> set (workers s)"



text \<open>
  What the specification asks of a callback task that is run in the world \<open>w\<close> and leaves the
  future in state \<open>fut\<close> and the world as \<open>w'\<close>. If the task callable fails, the failure is in
  the future and the callback was not invoked: the world is as the task callable left it. If
  the task callable returns a value, the callback was invoked once, with that value, in the
  world the task callable left, and the future is fulfilled, or holds the failure of the
  callback.
\<close>

definition callback_contract ::
  "('w, 'e, 'x) call \<Rightarrow> ('x \<Rightarrow> ('w, 'e, 'c) call) \<Rightarrow> 'w \<Rightarrow> ('e, 'r) shared_state \<Rightarrow> 'w \<Rightarrow> bool" where
  "callback_contract task_call callback_call w fut w' \<longleftrightarrow>
     (case task_call w of
        (Inl e, w1) \<Rightarrow> fut = Ready_exception e \<and> w' = w1
      | (Inr v, w1) \<Rightarrow>
          w' = snd (callback_call v w1) \<and>
          fut = (case fst (callback_call v w1) of Inl e \<Rightarrow> Ready_exception e | Inr c \<Rightarrow> Ready_void))"

text \<open>
  The work that is left in a pool: two steps of a worker for each element of the queue (the
  critical section that pops it, and its call), and one for each function object that a worker
  has popped and not yet called.
\<close>

fun popped :: "('w, 'e, 'r) thread \<Rightarrow> bool" where
  "popped (Thread (Popped task)) = True"
| "popped t = False"

definition pending :: "('w, 'e, 'r) pool \<Rightarrow> nat" where
  "pending s = 2 * length (tasks s) + length (filter popped (workers s))"

text \<open>
  No wake-up is lost: the pool has a worker thread, and whenever the queue is not empty some
  worker is on its way to the queue or to a call, not blocked in \<^verbatim>\<open>wait\<close>.
\<close>

definition awake :: "('w, 'e, 'r) pool \<Rightarrow> bool" where
  "awake s \<longleftrightarrow>
     (\<exists>t \<in> set (workers s). joinable t) \<and>
     (tasks s \<noteq> [] \<longrightarrow> (\<exists>t \<in> set (workers s). runnable t))"

text \<open>A worker that makes progress with its next step: it holds a function object, or it is
  on its way to a queue that is not empty.\<close>

definition can_progress :: "('w, 'e, 'r) pool \<Rightarrow> nat \<Rightarrow> bool" where
  "can_progress s i \<longleftrightarrow>
     i < length (workers s) \<and>
     (popped (workers s ! i) \<or> (runnable (workers s ! i) \<and> tasks s \<noteq> []))"

section \<open>The pool and the callables of the demonstration program\<close>

text \<open>
  The world of the demonstration program is what it prints, here the numbers printed. Its
  first task prints its argument and returns 2; the task of its callback example returns 4,
  and the callback prints the result it is given. \<open>failing\<close> is a task that throws.
\<close>

definition work :: "int \<Rightarrow> (int list, string, int) call" where
  "work a w = (Inr 2, w @ [a])"

definition work4 :: "int \<Rightarrow> (int list, string, int) call" where
  "work4 a w = (Inr 4, w @ [a])"

definition print_result :: "int \<Rightarrow> (int list, string, unit) call" where
  "print_result v w = (Inr (), w @ [v])"

definition failing :: "int \<Rightarrow> (int list, string, int) call" where
  "failing a w = (Inl ''failed'', w @ [a])"

text \<open>A reference to an object that holds \<open>v\<close> in every world: nothing changes it while a
  task that reads it is pending. The callables and arguments of the demonstration program are
  taken so.\<close>

definition unchanged :: "'v \<Rightarrow> ('w, 'v) reference" where
  "unchanged v w = v"

text \<open>\<^verbatim>\<open>cpool::TaskManager pool; pool.start();\<close> on a machine with two hardware threads,
  and with one: the states that \<open>start\<close> returns.\<close>

definition started_pool :: "(int list, string, int) pool" where
  "started_pool =
     \<lparr> isRunning = True, poolSize = 2, tasks = [],
       workers = [Thread Loop_top, Thread Loop_top],
       shared = (\<lambda>p. NotReady), next_shared = 0, world = [] \<rparr>"

definition single_pool :: "(int list, string, int) pool" where
  "single_pool =
     \<lparr> isRunning = True, poolSize = 1, tasks = [],
       workers = [Thread Loop_top],
       shared = (\<lambda>p. NotReady), next_shared = 0, world = [] \<rparr>"



text \<open>One task dispatched, then the critical section of \<^verbatim>\<open>stop\<close>, before any worker has
  moved.\<close>

definition stopped_with_work :: "(int list, string, int) pool" where
  "stopped_with_work = shutdown_signal (snd (dispatch (unchanged (Some work)) (unchanged 1) started_pool))"

text \<open>
  Two tasks are dispatched. In \<open>overtaking\<close>, worker 0 then pops the first, worker 1 pops the
  second and calls it, and only then worker 0 calls the first. In \<open>in_turn\<close> the only worker
  pops and calls one after the other.
\<close>

definition two_tasks :: "(int list, string, int) action list" where
  "two_tasks = [Push (Returns (invoke (Some work) 1)), Push (Returns (invoke (Some work) 2))]"

definition overtaking :: "(int list, string, int) action list" where
  "overtaking = two_tasks @ [Step 0, Step 1, Step 1, Step 0]"

definition in_turn :: "(int list, string, int) action list" where
  "in_turn = two_tasks @ [Step 0, Step 0, Step 0, Step 0]"






text \<open>\<^verbatim>\<open>cpool::TaskManager pool; pool.start();\<close> on a machine whose
  \<^verbatim>\<open>hardware_concurrency()\<close> is 0 (the value is not known): a running pool without
  workers.\<close>

definition no_workers :: "(int list, string, int) pool" where
  "no_workers =
     \<lparr> isRunning = True, poolSize = 0, tasks = [], workers = [],
       shared = (\<lambda>p. NotReady), next_shared = 0, world = [] \<rparr>"

text \<open>The member functions of the demonstration program (the instance has no state of its
  own), and its null callback \<^verbatim>\<open>cbfn = NULL\<close>; \<open>null_task\<close> and \<open>null_method\<close> are a null
  function pointer and a null member pointer.\<close>

definition method_work4 :: "unit \<Rightarrow> int \<Rightarrow> (int list, string, int) call" where
  "method_work4 this = work4"

definition method_print :: "unit \<Rightarrow> int \<Rightarrow> (int list, string, unit) call" where
  "method_print this = print_result"

definition null_task :: "(int list, (int \<Rightarrow> (int list, string, int) call) option) reference" where
  "null_task w = None"

definition null_callback ::
  "(int list, (int \<Rightarrow> (int list, string, unit) call) option) reference" where
  "null_callback w = None"

definition null_method ::
  "(int list, (unit \<Rightarrow> int \<Rightarrow> (int list, string, unit) call) option) reference" where
  "null_method w = None"

section \<open>Lemmas\<close>

lemma set_worker_simps:
  "isRunning (set_worker i st s) = isRunning s"
  "poolSize (set_worker i st s) = poolSize s"
  "tasks (set_worker i st s) = tasks s"
  "workers (set_worker i st s) = (workers s)[i := Thread st]"
  "shared (set_worker i st s) = shared s"
  "next_shared (set_worker i st s) = next_shared s"
  "world (set_worker i st s) = world s"
  by (simp_all add: set_worker_def)

lemma invoke_packaged_eq:
  "invoke_packaged t s =
     (if shared s (state_ptr t) = NotReady
      then Some (s\<lparr>shared := (shared s)(state_ptr t := fst (run_stored (stored_task t) (world s))),
                  world := snd (run_stored (stored_task t) (world s))\<rparr>)
      else None)"
  by (simp add: invoke_packaged_def split: shared_state.splits prod.splits)

lemma run_stored_ready: "fst (run_stored g w) \<noteq> NotReady"
  by (cases g) (auto split: prod.splits sum.splits)

lemma somes_append: "somes (xs @ ys) = somes xs @ somes ys"
  by (induction xs rule: somes.induct) simp_all

lemma mset_somes_update:
  "i < length xs \<Longrightarrow>
   mset (somes (xs[i := y])) + mset (somes [xs ! i]) = mset (somes xs) + mset (somes [y])"
proof (induction xs arbitrary: i rule: somes.induct)
  case 1
  then show ?case by simp
next
  case (2 xs)
  then show ?case by (cases i; cases y) simp_all
next
  case (3 x xs)
  then show ?case by (cases i; cases y) simp_all
qed

lemma somes_update_same: "i < length xs \<Longrightarrow> y = xs ! i \<Longrightarrow> somes (xs[i := y]) = somes xs"
  by simp

lemma held_task_wake: "held_task (wake t) = held_task t"
  by (induction t rule: wake.induct) simp_all

lemma map_held_task_wake_first: "map held_task (wake_first ts) = map held_task ts"
  by (induction ts rule: wake_first.induct) simp_all

lemma Terminated_wake_first: "Thread Terminated \<in> set (wake_first ts) \<longleftrightarrow> Thread Terminated \<in> set ts"
  by (induction ts rule: wake_first.induct) auto

lemma Terminated_update:
  "Thread Terminated \<notin> set ts \<Longrightarrow> t \<noteq> Thread Terminated \<Longrightarrow> Thread Terminated \<notin> set (ts[i := t])"
  using set_update_subset_insert [of ts i t] by auto

lemma wake_Terminated: "wake t = Thread Terminated \<longleftrightarrow> t = Thread Terminated"
  by (induction t rule: wake.induct) simp_all

lemma Terminated_wake_update:
  "Thread Terminated \<notin> set ts \<Longrightarrow> i < length ts \<Longrightarrow> Thread Terminated \<notin> set (ts[i := wake (ts ! i)])"
  by (rule Terminated_update) (auto simp add: wake_Terminated dest: nth_mem)

lemma map_update_nth: "(map f xs)[i := f (xs ! i)] = map f xs"
  by (metis list_update_id map_update)

lemma held_notify_one: "held (notify_one s) = held s"
  by (simp add: held_def notify_one_def map_held_task_wake_first)

lemma held_spurious_wakeup: "held (spurious_wakeup i s) = held s"
  by (simp add: held_def spurious_wakeup_def map_update held_task_wake map_update_nth)

lemma held_set_worker_same:
  assumes "i < length (workers s)" "held_task (workers s ! i) = held_task (Thread st)"
  shows "held (set_worker i st s) = held s"
  using assms by (simp add: held_def set_worker_def map_update flip: assms(2)) (simp add: map_update_nth)

lemma mset_held_set_worker:
  assumes "i < length (workers s)"
  shows "mset (held (set_worker i st s)) + mset (somes [held_task (workers s ! i)]) =
         mset (held s) + mset (somes [held_task (Thread st)])"
  using mset_somes_update [of i "map held_task (workers s)" "held_task (Thread st)"] assms
  by (simp add: held_def set_worker_def map_update)

lemma enqueued_append: "enqueued (tr @ tr') = enqueued tr @ enqueued tr'"
  by (induction tr rule: enqueued.induct) simp_all

lemma dequeued_append: "dequeued (tr @ tr') = dequeued tr @ dequeued tr'"
  by (induction tr rule: dequeued.induct) simp_all

lemma called_append: "called (tr @ tr') = called tr @ called tr'"
  by (induction tr rule: called.induct) simp_all

lemma called_subset_enqueued:
  assumes "consistent tr s"
  shows "set (called tr) \<subseteq> set (enqueued tr)"
proof -
  from assms have "set_mset (mset (dequeued tr)) = set_mset (mset (called tr) + mset (map state_ptr (held s)))"
    by (simp only: consistent_def)
  then have "set (called tr) \<subseteq> set (dequeued tr)" by auto
  moreover from assms have "set (dequeued tr) \<subseteq> set (enqueued tr)"
    by (auto simp add: consistent_def)
  ultimately show ?thesis by blast
qed

lemma consistent_same_live:
  assumes c: "consistent tr s"
    and w: "Thread Terminated \<notin> set (workers s')"
    and h: "held s' = held s" and q: "queued s' = queued s"
    and n: "next_shared s' = next_shared s" and sh: "shared s' = shared s"
  shows "consistent tr s'"
  using c w unfolding consistent_def well_formed_def live_def h q n sh by blast

lemma consistent_wakeup:
  assumes "consistent tr s"
  shows "consistent tr (spurious_wakeup i s)"
proof (rule consistent_same_live [OF assms])
  from assms have "Thread Terminated \<notin> set (workers s)"
    by (simp add: consistent_def well_formed_def)
  then show "Thread Terminated \<notin> set (workers (spurious_wakeup i s))"
    by (simp add: spurious_wakeup_def Terminated_wake_update)
  show "held (spurious_wakeup i s) = held s"
    by (rule held_spurious_wakeup)
qed (simp_all add: queued_def spurious_wakeup_def)

lemma consistent_assign:
  assumes "consistent tr s"
  shows "consistent tr (assign u s)"
proof (rule consistent_same_live [OF assms])
  from assms show "Thread Terminated \<notin> set (workers (assign u s))"
    by (simp add: consistent_def well_formed_def assign_def)
qed (simp_all add: held_def queued_def assign_def)

lemma consistent_idle:
  assumes c: "consistent tr s" and i: "i < length (workers s)"
    and h: "held_task (workers s ! i) = held_task (Thread st)" and st: "st \<noteq> Terminated"
  shows "consistent tr (set_worker i st s)"
proof (rule consistent_same_live [OF c])
  from c have "Thread Terminated \<notin> set (workers s)"
    by (simp add: consistent_def well_formed_def)
  with st show "Thread Terminated \<notin> set (workers (set_worker i st s))"
    by (simp add: set_worker_def Terminated_update)
  show "held (set_worker i st s) = held s"
    using i h by (rule held_set_worker_same)
qed (simp_all add: queued_def set_worker_def)

lemma consistent_push:
  assumes c: "consistent tr s"
  shows "consistent (tr @ [Enqueued (next_shared s)]) (push g s)"
proof -
  let ?n = "next_shared s"
  let ?s' = "push g s"
  have q: "queued ?s' = queued s @ [Packaged_task g ?n]"
    by (simp add: push_def make_shared_packaged_task_def pushTask_def notify_one_def queued_def somes_append)
  have h: "held ?s' = held s"
    by (simp add: push_def make_shared_packaged_task_def pushTask_def held_notify_one)
       (simp add: held_def)
  have n: "next_shared ?s' = Suc ?n"
    by (simp add: push_def make_shared_packaged_task_def pushTask_def notify_one_def)
  have sh: "shared ?s' = (shared s)(?n := NotReady)"
    by (simp add: push_def make_shared_packaged_task_def pushTask_def notify_one_def)
  have w: "workers ?s' = wake_first (workers s)"
    by (simp add: push_def make_shared_packaged_task_def pushTask_def notify_one_def)
  from c have wf: "well_formed s" and de: "distinct (enqueued tr)"
    and eq: "enqueued tr = dequeued tr @ map state_ptr (queued s)"
    and ms: "mset (dequeued tr) = mset (called tr) + mset (map state_ptr (held s))"
    and lt: "\<forall>p \<in> set (enqueued tr). p < ?n"
    and rd: "\<forall>p \<in> set (called tr). shared s p \<noteq> NotReady"
    unfolding consistent_def by blast+
  from wf have live_lt: "\<forall>p \<in> set (live s). p < ?n \<and> shared s p = NotReady"
    and dl: "distinct (live s)" and nt: "Thread Terminated \<notin> set (workers s)"
    unfolding well_formed_def by blast+
  have live': "live ?s' = map state_ptr (queued s) @ ?n # map state_ptr (held s)"
    by (simp add: live_def q h)
  have fresh: "?n \<notin> set (live s)" using live_lt by auto
  have "well_formed ?s'"
    unfolding well_formed_def
  proof (intro conjI ballI)
    show "Thread Terminated \<notin> set (workers ?s')"
      using nt by (simp add: w Terminated_wake_first)
    show "distinct (live ?s')"
      unfolding live' using dl fresh by (auto simp add: live_def)
    fix p assume "p \<in> set (live ?s')"
    then have "p = ?n \<or> p \<in> set (live s)" unfolding live' by (auto simp add: live_def)
    then show "p < next_shared ?s'" using live_lt by (auto simp add: n)
    from \<open>p = ?n \<or> p \<in> set (live s)\<close> show "shared ?s' p = NotReady"
      using live_lt by (auto simp add: sh)
  qed
  moreover have "distinct (enqueued (tr @ [Enqueued ?n]))"
    using de lt by (auto simp add: enqueued_append)
  moreover have "enqueued (tr @ [Enqueued ?n]) = dequeued (tr @ [Enqueued ?n]) @ map state_ptr (queued ?s')"
    by (simp add: enqueued_append dequeued_append eq q)
  moreover have "mset (dequeued (tr @ [Enqueued ?n])) =
      mset (called (tr @ [Enqueued ?n])) + mset (map state_ptr (held ?s'))"
    by (simp add: dequeued_append called_append ms h)
  moreover have "\<forall>p \<in> set (enqueued (tr @ [Enqueued ?n])). p < next_shared ?s'"
    using lt by (auto simp add: enqueued_append n)
  moreover have "\<forall>p \<in> set (called (tr @ [Enqueued ?n])). shared ?s' p \<noteq> NotReady"
  proof
    fix p assume "p \<in> set (called (tr @ [Enqueued ?n]))"
    then have p: "p \<in> set (called tr)" by (simp add: called_append)
    with called_subset_enqueued [OF c] lt have "p \<noteq> ?n" by auto
    with rd p show "shared ?s' p \<noteq> NotReady" by (simp add: sh)
  qed
  ultimately show ?thesis unfolding consistent_def by blast
qed

lemma consistent_pop:
  assumes c: "consistent tr s" and i: "i < length (workers s)"
    and hn: "held_task (workers s ! i) = None" and ts: "tasks s = x # q"
  shows "consistent (tr @ (case x of None \<Rightarrow> [] | Some t \<Rightarrow> [Dequeued i (state_ptr t)]))
           (set_worker i (Popped x) (s\<lparr>tasks := q\<rparr>))"
proof -
  let ?s' = "set_worker i (Popped x) (s\<lparr>tasks := q\<rparr>)"
  let ?tr' = "tr @ (case x of None \<Rightarrow> [] | Some t \<Rightarrow> [Dequeued i (state_ptr t)])"
  have q: "queued s = somes [x] @ queued ?s'"
    by (cases x) (simp_all add: queued_def ts set_worker_def)
  have "mset (held ?s') + mset (somes [held_task (workers (s\<lparr>tasks := q\<rparr>) ! i)]) =
        mset (held (s\<lparr>tasks := q\<rparr>)) + mset (somes [held_task (Thread (Popped x))])"
    by (rule mset_held_set_worker) (simp add: i)
  then have h: "mset (held ?s') = mset (held s) + mset (somes [x])"
    by (simp add: hn) (simp add: held_def)
  have hp: "mset (map state_ptr (held ?s')) =
      mset (map state_ptr (held s)) + mset (map state_ptr (somes [x]))"
    using arg_cong [OF h, of "image_mset state_ptr"] by simp
  have n: "next_shared ?s' = next_shared s" and sh: "shared ?s' = shared s"
    and w: "workers ?s' = (workers s)[i := Thread (Popped x)]"
    by (simp_all add: set_worker_def)
  from c have wf: "well_formed s" and de: "distinct (enqueued tr)"
    and eq: "enqueued tr = dequeued tr @ map state_ptr (queued s)"
    and ms: "mset (dequeued tr) = mset (called tr) + mset (map state_ptr (held s))"
    and lt: "\<forall>p \<in> set (enqueued tr). p < next_shared s"
    and rd: "\<forall>p \<in> set (called tr). shared s p \<noteq> NotReady"
    unfolding consistent_def by blast+
  from wf have live_lt: "\<forall>p \<in> set (live s). p < next_shared s \<and> shared s p = NotReady"
    and dl: "distinct (live s)" and nt: "Thread Terminated \<notin> set (workers s)"
    unfolding well_formed_def by blast+
  have ml: "mset (live ?s') = mset (live s)"
    unfolding live_def by (simp add: q h)
  have "well_formed ?s'"
    unfolding well_formed_def
  proof (intro conjI ballI)
    show "Thread Terminated \<notin> set (workers ?s')"
      unfolding w using nt by (simp add: Terminated_update)
    show "distinct (live ?s')"
      using dl mset_eq_imp_distinct_iff [OF ml] by simp
    fix p assume "p \<in> set (live ?s')"
    then have "p \<in> set (live s)" using mset_eq_setD [OF ml] by simp
    then show "p < next_shared ?s'" and "shared ?s' p = NotReady"
      using live_lt by (simp_all add: n sh)
  qed
  moreover have "distinct (enqueued ?tr')"
    using de by (cases x) (simp_all add: enqueued_append)
  moreover have "enqueued ?tr' = dequeued ?tr' @ map state_ptr (queued ?s')"
    using eq by (cases x) (simp_all add: enqueued_append dequeued_append q)
  moreover have "mset (dequeued ?tr') = mset (called ?tr') + mset (map state_ptr (held ?s'))"
    using ms h by (cases x) (simp_all add: dequeued_append called_append)
  moreover have "\<forall>p \<in> set (enqueued ?tr'). p < next_shared ?s'"
    using lt by (cases x) (simp_all add: enqueued_append set_worker_simps)
  moreover have "\<forall>p \<in> set (called ?tr'). shared ?s' p \<noteq> NotReady"
    using rd by (cases x) (simp_all add: called_append set_worker_simps)
  ultimately show ?thesis unfolding consistent_def by blast
qed

lemma Some_in_somes: "Some x \<in> set xs \<Longrightarrow> x \<in> set (somes xs)"
  by (induction xs rule: somes.induct) auto

lemma holder_in_held:
  assumes "i < length (workers s)" and "workers s ! i = Thread (Popped (Some t))"
  shows "t \<in> set (held s)"
proof -
  from assms have "Some t \<in> set (map held_task (workers s))"
    by (metis held_task.simps(1) image_eqI nth_mem set_map)
  then show ?thesis unfolding held_def by (rule Some_in_somes)
qed

lemma consistent_call:
  assumes c: "consistent tr s" and i: "i < length (workers s)"
    and ws: "workers s ! i = Thread (Popped (Some t))" and out: "out \<noteq> NotReady"
  shows "shared s (state_ptr t) = NotReady"
    and "consistent (tr @ [Called i (state_ptr t)])
           (set_worker i Loop_top (s\<lparr>shared := (shared s)(state_ptr t := out), world := w'\<rparr>))"
proof -
  let ?s1 = "s\<lparr>shared := (shared s)(state_ptr t := out), world := w'\<rparr>"
  let ?s' = "set_worker i Loop_top ?s1"
  let ?tr' = "tr @ [Called i (state_ptr t)]"
  from c have wf: "well_formed s" and de: "distinct (enqueued tr)"
    and eq: "enqueued tr = dequeued tr @ map state_ptr (queued s)"
    and ms: "mset (dequeued tr) = mset (called tr) + mset (map state_ptr (held s))"
    and lt: "\<forall>p \<in> set (enqueued tr). p < next_shared s"
    and rd: "\<forall>p \<in> set (called tr). shared s p \<noteq> NotReady"
    unfolding consistent_def by blast+
  from wf have live_lt: "\<forall>p \<in> set (live s). p < next_shared s \<and> shared s p = NotReady"
    and dl: "distinct (live s)" and nt: "Thread Terminated \<notin> set (workers s)"
    unfolding well_formed_def by blast+
  have "t \<in> set (held s)" using i ws by (rule holder_in_held)
  then have tl: "state_ptr t \<in> set (live s)" by (simp add: live_def)
  with live_lt show "shared s (state_ptr t) = NotReady" by blast
  have q: "queued ?s' = queued s" by (simp add: queued_def set_worker_def)
  have "mset (held ?s') + mset (somes [held_task (workers ?s1 ! i)]) =
        mset (held ?s1) + mset (somes [held_task (Thread Loop_top)])"
    by (rule mset_held_set_worker) (simp add: i)
  then have h: "mset (held s) = mset (held ?s') + {#t#}"
    by (simp add: ws) (simp add: held_def)
  have hp: "mset (map state_ptr (held s)) = mset (map state_ptr (held ?s')) + {#state_ptr t#}"
    using arg_cong [OF h, of "image_mset state_ptr"] by simp
  have n: "next_shared ?s' = next_shared s" and sh: "shared ?s' = (shared s)(state_ptr t := out)"
    and w: "workers ?s' = (workers s)[i := Thread Loop_top]"
    by (simp_all add: set_worker_def)
  have ml: "mset (live s) = mset (state_ptr t # live ?s')"
    unfolding live_def by (simp add: q h)
  from dl mset_eq_imp_distinct_iff [OF ml] have dl': "distinct (state_ptr t # live ?s')" by simp
  have sub: "set (live ?s') \<subseteq> set (live s)" using mset_eq_setD [OF ml] by auto
  have "well_formed ?s'"
    unfolding well_formed_def
  proof (intro conjI ballI)
    show "Thread Terminated \<notin> set (workers ?s')"
      unfolding w using nt by (simp add: Terminated_update)
    show "distinct (live ?s')" using dl' by simp
    fix p assume p: "p \<in> set (live ?s')"
    with sub live_lt show "p < next_shared ?s'" by (auto simp add: n)
    from p dl' have "p \<noteq> state_ptr t" by auto
    with p sub live_lt show "shared ?s' p = NotReady" by (auto simp add: sh)
  qed
  moreover have "distinct (enqueued ?tr')"
    using de by (simp add: enqueued_append)
  moreover have "enqueued ?tr' = dequeued ?tr' @ map state_ptr (queued ?s')"
    using eq by (simp add: enqueued_append dequeued_append q)
  moreover have "mset (dequeued ?tr') = mset (called ?tr') + mset (map state_ptr (held ?s'))"
    using ms by (simp add: dequeued_append called_append h)
  moreover have "\<forall>p \<in> set (enqueued ?tr'). p < next_shared ?s'"
    using lt by (simp add: enqueued_append n)
  moreover have "\<forall>p \<in> set (called ?tr'). shared ?s' p \<noteq> NotReady"
    using rd out by (simp add: called_append sh)
  ultimately show "consistent ?tr' ?s'" unfolding consistent_def by blast
qed

lemma consistent_critical:
  assumes c: "consistent tr s" and i: "i < length (workers s)"
    and hn: "held_task (workers s ! i) = None"
  shows "consistent (tr @ observe_critical i s) (critical_section i s)"
proof (cases "isRunning s")
  case False
  then show ?thesis
    using consistent_idle [OF c i, of Returned] hn
    by (simp add: critical_section_def observe_critical_def)
next
  case True
  show ?thesis
  proof (cases "tasks s")
    case Nil
    with True show ?thesis
      using consistent_idle [OF c i, of Blocked] hn
      by (simp add: critical_section_def observe_critical_def)
  next
    case (Cons x q)
    with True show ?thesis
      using consistent_pop [OF c i hn Cons]
      by (cases x) (simp_all add: critical_section_def observe_critical_def)
  qed
qed

lemma consistent_execute:
  assumes c: "consistent tr s" and i: "i < length (workers s)"
    and ws: "workers s ! i = Thread (Popped task)"
  shows "consistent (tr @ (case task of None \<Rightarrow> [] | Some t \<Rightarrow> [Called i (state_ptr t)]))
           (execute i task s)"
proof (cases task)
  case None
  with consistent_idle [OF c i, of Loop_top] ws show ?thesis
    by (simp add: execute_def)
next
  case (Some t)
  with ws have ws': "workers s ! i = Thread (Popped (Some t))" by simp
  from consistent_call [OF c i ws' run_stored_ready] Some show ?thesis
    by (simp add: execute_def invoke_packaged_eq)
qed

lemma consistent_step:
  assumes c: "consistent tr s"
  shows "consistent (tr @ observe (Step i) s) (worker_step i s)"
proof (cases "i < length (workers s)")
  case False
  with c show ?thesis by (simp add: worker_step_def)
next
  case i: True
  show ?thesis
  proof (cases "workers s ! i")
    case Not_a_thread
    with c i show ?thesis by (simp add: worker_step_def)
  next
    case (Thread st)
    show ?thesis
    proof (cases st)
      case Loop_top
      with Thread i consistent_critical [OF c i] show ?thesis by (simp add: worker_step_def)
    next
      case Woken
      with Thread i consistent_critical [OF c i] show ?thesis by (simp add: worker_step_def)
    next
      case (Popped task)
      with Thread have "workers s ! i = Thread (Popped task)" by simp
      from consistent_execute [OF c i this] Thread Popped i show ?thesis
        by (cases task) (simp_all add: worker_step_def)
    qed (use c i Thread in \<open>simp_all add: worker_step_def\<close>)
  qed
qed

lemma consistent_perform:
  assumes "consistent tr s"
  shows "consistent (tr @ observe a s) (perform a s)"
proof (cases a)
  case (Step i)
  with consistent_step [OF assms] show ?thesis by simp
next
  case (Wakeup i)
  with consistent_wakeup [OF assms] show ?thesis by simp
next
  case (Push g)
  with consistent_push [OF assms] show ?thesis by simp
next
  case (Assign u)
  with consistent_assign [OF assms] show ?thesis by simp
qed

lemma consistent_run:
  assumes "consistent tr s"
  shows "consistent (fst (run acts (tr, s))) (snd (run acts (tr, s)))"
  using assms
proof (induction acts arbitrary: tr s)
  case Nil
  then show ?case by simp
next
  case (Cons a acts)
  from Cons.IH [OF consistent_perform [OF Cons.prems]] show ?case by simp
qed

lemma run_append: "run (acts @ acts') c = run acts' (run acts c)"
  by (induction acts c rule: run.induct) simp_all

lemma held_started: "somes (map held_task (ws @ replicate n (Thread Loop_top))) = somes (map held_task ws)"
  by (induction n) (simp_all add: somes_append replicate_app_Cons_same)

subsection \<open>start\<close>

lemma await_joinable_Thread: "await_joinable (Thread st) = Some ()"
  by (subst await_joinable.simps) simp

lemma spawn_eq: "spawn n s = Some (s\<lparr>workers := workers s @ replicate n (Thread Loop_top)\<rparr>)"
proof (induction n arbitrary: s)
  case 0
  show ?case by simp
next
  case (Suc n)
  show ?case
    by (simp add: Suc.IH await_joinable_Thread replicate_app_Cons_same)
qed

lemma start_eq:
  "start s =
     Some (s\<lparr>isRunning := True, workers := workers s @ replicate (poolSize s) (Thread Loop_top)\<rparr>)"
  by (simp add: start_def spawn_eq)

subsection \<open>Well-formed states stay well-formed\<close>

lemma enqueued_map_Enqueued: "enqueued (map Enqueued ps) = ps"
  by (induction ps) simp_all

lemma dequeued_map_Enqueued: "dequeued (map Enqueued ps) = []"
  by (induction ps) simp_all

lemma called_map_Enqueued: "called (map Enqueued ps) = []"
  by (induction ps) simp_all

lemma enqueued_map_Dequeued: "enqueued (map (Dequeued i) ps) = []"
  by (induction ps) simp_all

lemma dequeued_map_Dequeued: "dequeued (map (Dequeued i) ps) = ps"
  by (induction ps) simp_all

lemma called_map_Dequeued: "called (map (Dequeued i) ps) = []"
  by (induction ps) simp_all

lemma well_formed_consistent:
  assumes "well_formed s"
  shows "\<exists>tr. consistent tr s"
proof -
  define h where "h = map state_ptr (held s)"
  define q where "q = map state_ptr (queued s)"
  let ?tr = "map Enqueued (h @ q) @ map (Dequeued 0) h"
  from assms have "distinct (h @ q)" and "\<forall>p \<in> set (h @ q). p < next_shared s"
    by (auto simp add: well_formed_def live_def h_def q_def)
  with assms have "consistent ?tr s"
    unfolding consistent_def h_def [symmetric] q_def [symmetric]
    by (simp add: enqueued_append dequeued_append called_append enqueued_map_Enqueued
        dequeued_map_Enqueued called_map_Enqueued enqueued_map_Dequeued dequeued_map_Dequeued
        called_map_Dequeued del: map_append)
  then show ?thesis ..
qed

lemma well_formed_perform:
  assumes "well_formed s"
  shows "well_formed (perform a s)"
proof -
  from well_formed_consistent [OF assms] obtain tr where "consistent tr s" ..
  then have "consistent (tr @ observe a s) (perform a s)" by (rule consistent_perform)
  then show ?thesis by (simp add: consistent_def)
qed

lemma well_formed_step: "well_formed s \<Longrightarrow> well_formed (worker_step i s)"
  using well_formed_perform [of s "Step i"] by simp


subsection \<open>stop\<close>

lemma invoke_packaged_frame:
  assumes "invoke_packaged t s = Some s'"
  shows "workers s' = workers s" and "tasks s' = tasks s" and "isRunning s' = isRunning s"
  using assms by (auto simp add: invoke_packaged_eq split: if_splits)

lemma critical_section_frame:
  "isRunning (critical_section i s) = isRunning s"
  "\<not> isRunning s \<Longrightarrow> tasks (critical_section i s) = tasks s"
  "i < length (workers s) \<Longrightarrow>
     workers (critical_section i s) = (workers s)[i := workers (critical_section i s) ! i]"
  "\<not> isRunning s \<Longrightarrow> i < length (workers s) \<Longrightarrow>
     workers (critical_section i s) ! i \<noteq> Thread Blocked"
  by (simp_all add: critical_section_def set_worker_simps)

lemma execute_frame:
  "isRunning (execute i task s) = isRunning s"
  "tasks (execute i task s) = tasks s"
  "i < length (workers s) \<Longrightarrow>
     workers (execute i task s) = (workers s)[i := workers (execute i task s) ! i]"
  "i < length (workers s) \<Longrightarrow> workers (execute i task s) ! i \<noteq> Thread Blocked"
  by (simp_all add: execute_def set_worker_simps invoke_packaged_eq split: option.splits)

lemma worker_step_isRunning: "isRunning (worker_step i s) = isRunning s"
  by (simp add: worker_step_def critical_section_frame execute_frame
      split: thread.splits wstate.splits)

lemma worker_step_tasks: "\<not> isRunning s \<Longrightarrow> tasks (worker_step i s) = tasks s"
  by (simp add: worker_step_def critical_section_frame execute_frame
      split: thread.splits wstate.splits)

lemma worker_step_workers:
  "workers (worker_step i s) = (workers s)[i := workers (worker_step i s) ! i]"
proof (cases "i < length (workers s)")
  case False
  then show ?thesis by (simp add: worker_step_def)
next
  case True
  show ?thesis
  proof (cases "workers s ! i")
    case Not_a_thread
    with True show ?thesis by (simp add: worker_step_def) (metis list_update_id)
  next
    case (Thread st)
    with True critical_section_frame(3) [of i s] execute_frame(3) [of i s] show ?thesis
      by (cases st) (simp_all add: worker_step_def, (metis list_update_id)+)
  qed
qed

lemma worker_step_length: "length (workers (worker_step i s)) = length (workers s)"
  by (subst worker_step_workers) simp

lemma worker_step_not_Blocked:
  assumes nr: "\<not> isRunning s" and nb: "Thread Blocked \<notin> set (workers s)"
  shows "Thread Blocked \<notin> set (workers (worker_step i s))"
proof (cases "i < length (workers s)")
  case False
  with nb show ?thesis by (simp add: worker_step_def)
next
  case True
  have "workers (worker_step i s) ! i \<noteq> Thread Blocked"
  proof (cases "workers s ! i")
    case Not_a_thread
    with True show ?thesis by (simp add: worker_step_def)
  next
    case (Thread st)
    with True critical_section_frame(4) [OF nr True] execute_frame(4) [OF True] nb
    show ?thesis
      by (cases st) (auto simp add: worker_step_def dest: nth_mem)
  qed
  with nb set_update_subset_insert [of "workers s" i "workers (worker_step i s) ! i"]
  show ?thesis by (subst worker_step_workers) auto
qed

lemma worker_step_returns:
  assumes "\<not> isRunning s" and "i < length (workers s)"
    and "workers s ! i = Thread Loop_top \<or> workers s ! i = Thread Woken"
  shows "workers (worker_step i s) ! i = Thread Returned"
  using assms by (auto simp add: worker_step_def critical_section_def set_worker_simps)

lemma worker_step_calls:
  assumes wf: "well_formed s" and i: "i < length (workers s)"
    and ws: "workers s ! i = Thread (Popped task)"
  shows "workers (worker_step i s) ! i = Thread Loop_top"
proof (cases task)
  case None
  with i ws show ?thesis by (simp add: worker_step_def execute_def set_worker_simps)
next
  case (Some t)
  with i ws have "t \<in> set (held s)" by (simp add: holder_in_held)
  with wf have "shared s (state_ptr t) = NotReady" by (simp add: well_formed_def live_def)
  with i ws Some show ?thesis
    by (simp add: worker_step_def execute_def set_worker_simps invoke_packaged_eq)
qed

lemma run_to_return_Returned: "workers s ! i = Thread Returned \<Longrightarrow> run_to_return i s = Some s"
  by (subst run_to_return.simps) simp

lemma run_to_return_idle:
  assumes "\<not> isRunning s" and "i < length (workers s)"
    and "workers s ! i = Thread Loop_top \<or> workers s ! i = Thread Woken"
  shows "run_to_return i s = Some (worker_step i s)"
proof -
  from assms(3) have "run_to_return i s = run_to_return i (worker_step i s)"
    by (subst run_to_return.simps) auto
  with worker_step_returns [OF assms] show ?thesis by (simp add: run_to_return_Returned)
qed

lemma run_to_return_Popped:
  assumes nr: "\<not> isRunning s" and wf: "well_formed s" and i: "i < length (workers s)"
    and ws: "workers s ! i = Thread (Popped task)"
  shows "run_to_return i s = Some (worker_step i (worker_step i s))"
proof -
  let ?s1 = "worker_step i s"
  from ws have "run_to_return i s = run_to_return i ?s1"
    by (subst run_to_return.simps) simp
  moreover have "\<not> isRunning ?s1" using nr by (simp add: worker_step_isRunning)
  moreover have "i < length (workers ?s1)" using i by (simp add: worker_step_length)
  moreover have "workers ?s1 ! i = Thread Loop_top" using wf i ws by (rule worker_step_calls)
  ultimately show ?thesis by (simp add: run_to_return_idle)
qed

lemma stopping_step:
  assumes "stopping s"
  shows "stopping (worker_step i s)"
proof -
  from assms have nr: "\<not> isRunning s" and wf: "well_formed s"
    and nb: "Thread Blocked \<notin> set (workers s)"
    unfolding stopping_def by blast+
  have "\<not> isRunning (worker_step i s)" using nr by (simp add: worker_step_isRunning)
  moreover have "well_formed (worker_step i s)" using wf by (rule well_formed_step)
  moreover have "Thread Blocked \<notin> set (workers (worker_step i s))"
    using nr nb by (rule worker_step_not_Blocked)
  ultimately show ?thesis unfolding stopping_def by blast
qed

lemma not_in_update: "x \<notin> set xs \<Longrightarrow> x \<noteq> y \<Longrightarrow> x \<notin> set (xs[i := y])"
  using set_update_subset_insert [of xs i y] by auto

lemma stopping_unjoinable:
  assumes st: "stopping s" and i: "i < length (workers s)"
    and r: "workers s ! i = Thread Returned"
  shows "stopping (s\<lparr>workers := (workers s)[i := Not_a_thread]\<rparr>)"
proof -
  let ?s' = "s\<lparr>workers := (workers s)[i := Not_a_thread]\<rparr>"
  from st have nr: "\<not> isRunning s" and wf: "well_formed s"
    and nb: "Thread Blocked \<notin> set (workers s)"
    unfolding stopping_def by blast+
  from wf have nt: "Thread Terminated \<notin> set (workers s)" and dl: "distinct (live s)"
    and lv: "\<forall>p \<in> set (live s). p < next_shared s \<and> shared s p = NotReady"
    unfolding well_formed_def by blast+
  have "held_task Not_a_thread = held_task (workers s ! i)" by (simp add: r)
  then have "map held_task ((workers s)[i := Not_a_thread]) = map held_task (workers s)"
    by (simp only: map_update map_update_nth)
  then have h: "held ?s' = held s" by (simp add: held_def)
  have q: "queued ?s' = queued s" by (simp add: queued_def)
  have l: "live ?s' = live s" by (simp only: live_def h q)
  have nb': "Thread Blocked \<notin> set (workers ?s')" using nb by (simp add: not_in_update)
  have nt': "Thread Terminated \<notin> set (workers ?s')" using nt by (simp add: not_in_update)
  have "well_formed ?s'"
    unfolding well_formed_def l using nt' dl lv by simp
  with nr nb' show ?thesis unfolding stopping_def by simp
qed

lemma join_stopping:
  assumes st: "stopping s" and i: "i < length (workers s)" and j: "joinable (workers s ! i)"
  shows "\<exists>s'. join i s = Some s' \<and> stopping s' \<and> tasks s' = tasks s \<and>
              workers s' = (workers s)[i := Not_a_thread]"
proof -
  from st have nr: "\<not> isRunning s" and wf: "well_formed s"
    and nb: "Thread Blocked \<notin> set (workers s)" and nt: "Thread Terminated \<notin> set (workers s)"
    by (simp_all add: stopping_def well_formed_def)
  from nb nt i have ni: "workers s ! i \<noteq> Thread Blocked" "workers s ! i \<noteq> Thread Terminated"
    by (auto dest: nth_mem)
  have "\<exists>s1. run_to_return i s = Some s1 \<and> stopping s1 \<and> tasks s1 = tasks s \<and>
          workers s1 = (workers s)[i := Thread Returned]"
  proof (cases "workers s ! i")
    case Not_a_thread
    with j show ?thesis by simp
  next
    case (Thread ws)
    show ?thesis
    proof (cases ws)
      case Returned
      with Thread have r: "workers s ! i = Thread Returned" by simp
      then have "workers s = (workers s)[i := Thread Returned]" by (metis list_update_id)
      with st r show ?thesis by (simp add: run_to_return_Returned)
    next
      case (Popped task)
      with Thread have p: "workers s ! i = Thread (Popped task)" by simp
      let ?s1 = "worker_step i s" and ?s2 = "worker_step i (worker_step i s)"
      have r: "run_to_return i s = Some ?s2" using nr wf i p by (rule run_to_return_Popped)
      have "workers ?s1 ! i = Thread Loop_top" using wf i p by (rule worker_step_calls)
      then have r2: "workers ?s2 ! i = Thread Returned"
        using nr i by (simp add: worker_step_returns worker_step_isRunning worker_step_length)
      have a: "workers ?s2 = (workers ?s1)[i := Thread Returned]"
        by (subst worker_step_workers) (simp add: r2)
      have "workers ?s2 = (workers s)[i := Thread Returned]"
        by (subst a, subst worker_step_workers) simp
      with r st nr show ?thesis
        by (simp add: stopping_step worker_step_tasks worker_step_isRunning)
    next
      case Loop_top
      with Thread have p: "workers s ! i = Thread Loop_top \<or> workers s ! i = Thread Woken" by simp
      let ?s1 = "worker_step i s"
      have r: "run_to_return i s = Some ?s1" using nr i p by (rule run_to_return_idle)
      have "workers ?s1 ! i = Thread Returned" using nr i p by (rule worker_step_returns)
      then have "workers ?s1 = (workers s)[i := Thread Returned]"
        by (subst worker_step_workers) simp
      with r st nr show ?thesis by (simp add: stopping_step worker_step_tasks)
    next
      case Woken
      with Thread have p: "workers s ! i = Thread Loop_top \<or> workers s ! i = Thread Woken" by simp
      let ?s1 = "worker_step i s"
      have r: "run_to_return i s = Some ?s1" using nr i p by (rule run_to_return_idle)
      have "workers ?s1 ! i = Thread Returned" using nr i p by (rule worker_step_returns)
      then have "workers ?s1 = (workers s)[i := Thread Returned]"
        by (subst worker_step_workers) simp
      with r st nr show ?thesis by (simp add: stopping_step worker_step_tasks)
    qed (use Thread ni in simp_all)
  qed
  then obtain s1 where r: "run_to_return i s = Some s1" and st1: "stopping s1"
    and t1: "tasks s1 = tasks s" and w1: "workers s1 = (workers s)[i := Thread Returned]"
    by blast
  from w1 i have "i < length (workers s1)" "workers s1 ! i = Thread Returned" by simp_all
  with st1 have "stopping (s1\<lparr>workers := (workers s1)[i := Not_a_thread]\<rparr>)"
    by (simp add: stopping_unjoinable)
  with r t1 w1 show ?thesis by (simp add: join_def)
qed

lemma join_workers_stopping:
  assumes "stopping s" and "i + n = length (workers s)"
  shows "\<exists>s'. join_workers i n s = Some s' \<and> stopping s' \<and> tasks s' = tasks s \<and>
              workers s' = take i (workers s) @ replicate n Not_a_thread"
  using assms
proof (induction n arbitrary: i s)
  case 0
  then show ?case by simp
next
  case (Suc n)
  from Suc.prems have i: "i < length (workers s)" by simp
  show ?case
  proof (cases "joinable (workers s ! i)")
    case True
    from join_stopping [OF Suc.prems(1) i True] obtain s1 where j: "join i s = Some s1"
      and st1: "stopping s1" and t1: "tasks s1 = tasks s"
      and w1: "workers s1 = (workers s)[i := Not_a_thread]" by blast
    from Suc.prems w1 have "Suc i + n = length (workers s1)" by simp
    from Suc.IH [OF st1 this] obtain s' where "join_workers (Suc i) n s1 = Some s'"
      and "stopping s'" and "tasks s' = tasks s1"
      and "workers s' = take (Suc i) (workers s1) @ replicate n Not_a_thread" by blast
    with True j t1 w1 i show ?thesis
      by (simp add: take_Suc_conv_app_nth replicate_app_Cons_same)
  next
    case False
    then have n: "workers s ! i = Not_a_thread" by (cases "workers s ! i") simp_all
    from Suc.prems have "Suc i + n = length (workers s)" by simp
    from Suc.IH [OF Suc.prems(1) this] obtain s' where "join_workers (Suc i) n s = Some s'"
      and "stopping s'" and "tasks s' = tasks s"
      and "workers s' = take (Suc i) (workers s) @ replicate n Not_a_thread" by blast
    with False n i show ?thesis
      by (simp add: take_Suc_conv_app_nth replicate_app_Cons_same)
  qed
qed

lemma wake_not_Blocked: "wake t \<noteq> Thread Blocked" "Thread Blocked \<noteq> wake t"
  by (induction t rule: wake.induct) simp_all

lemma stopping_shutdown_signal:
  assumes wf: "well_formed s"
  shows "stopping (shutdown_signal s)"
proof -
  let ?s' = "shutdown_signal s"
  from wf have nt: "Thread Terminated \<notin> set (workers s)" and dl: "distinct (live s)"
    and lv: "\<forall>p \<in> set (live s). p < next_shared s \<and> shared s p = NotReady"
    unfolding well_formed_def by blast+
  have w: "workers ?s' = map wake (workers s)" and nr: "\<not> isRunning ?s'"
    and n: "next_shared ?s' = next_shared s" and sh: "shared ?s' = shared s"
    by (simp_all add: shutdown_signal_def notify_all_def)
  have h: "held ?s' = held s"
    by (simp add: held_def w held_task_wake cong: map_cong)
  have q: "queued ?s' = queued s"
    by (simp add: queued_def shutdown_signal_def notify_all_def)
  have l: "live ?s' = live s" by (simp only: live_def h q)
  have nb': "Thread Blocked \<notin> set (workers ?s')"
    unfolding w using wake_not_Blocked by (auto simp add: image_iff)
  have nt': "Thread Terminated \<notin> set (workers ?s')"
  proof
    assume "Thread Terminated \<in> set (workers ?s')"
    then obtain t where "t \<in> set (workers s)" and "wake t = Thread Terminated"
      unfolding w by auto
    with nt show False by (simp add: wake_Terminated)
  qed
  have "well_formed ?s'"
    unfolding well_formed_def l n sh using nt' dl lv by simp
  with nr nb' show ?thesis unfolding stopping_def by simp
qed

lemma stop_joins_all:
  assumes "well_formed s"
  shows "\<exists>s'. stop s = Some s' \<and> \<not> isRunning s' \<and> well_formed s' \<and> tasks s' = tasks s \<and>
              workers s' = replicate (length (workers s)) Not_a_thread"
proof -
  let ?s1 = "shutdown_signal s"
  have "stopping ?s1" using assms by (rule stopping_shutdown_signal)
  moreover have "0 + length (workers ?s1) = length (workers ?s1)" by simp
  ultimately obtain s' where "join_workers 0 (length (workers ?s1)) ?s1 = Some s'"
    and "stopping s'" and "tasks s' = tasks ?s1"
    and "workers s' = take 0 (workers ?s1) @ replicate (length (workers ?s1)) Not_a_thread"
    using join_workers_stopping by blast
  then show ?thesis
    by (simp add: stop_def stopping_def) (simp add: shutdown_signal_def notify_all_def)
qed



subsection \<open>The order of calls in a pool with one worker\<close>

lemma not_joinable_held: "\<not> joinable t \<Longrightarrow> held_task t = None"
  by (cases t) simp_all

lemma no_joinable_somes: "filter joinable ws = [] \<Longrightarrow> somes (map held_task ws) = []"
  by (induction ws) (auto simp add: not_joinable_held split: if_splits)

lemma single_somes:
  "length (filter joinable ws) \<le> 1 \<Longrightarrow> i < length ws \<Longrightarrow> joinable (ws ! i) \<Longrightarrow>
   somes (map held_task ws) = somes [held_task (ws ! i)]"
proof (induction ws arbitrary: i)
  case Nil
  then show ?case by simp
next
  case (Cons w ws)
  show ?case
  proof (cases i)
    case 0
    with Cons.prems have "filter joinable ws = []" by simp
    then have "somes (map held_task ws) = []" by (rule no_joinable_somes)
    with 0 show ?thesis by (cases "held_task w") simp_all
  next
    case (Suc j)
    with Cons.prems have j: "j < length ws" "joinable (ws ! j)" by simp_all
    then have "filter joinable ws \<noteq> []" by (auto simp add: filter_empty_conv)
    with Cons.prems have nj: "\<not> joinable w" by (auto split: if_splits)
    with Cons.prems have "length (filter joinable ws) \<le> 1" by simp
    from Cons.IH [OF this j] nj Suc show ?thesis by (simp add: not_joinable_held)
  qed
qed

lemma held_single:
  "single_worker s \<Longrightarrow> i < length (workers s) \<Longrightarrow> joinable (workers s ! i) \<Longrightarrow>
   held s = somes [held_task (workers s ! i)]"
  unfolding single_worker_def held_def by (rule single_somes)

lemma filter_joinable_update:
  "i < length ws \<Longrightarrow> joinable y = joinable (ws ! i) \<Longrightarrow>
   length (filter joinable (ws[i := y])) = length (filter joinable ws)"
proof (induction ws arbitrary: i)
  case Nil
  then show ?case by simp
next
  case (Cons w ws)
  then show ?case by (cases i) simp_all
qed

lemma joinable_wake: "joinable (wake t) = joinable t"
  by (induction t rule: wake.induct) simp_all

lemma filter_joinable_wake_first:
  "length (filter joinable (wake_first ws)) = length (filter joinable ws)"
  by (induction ws rule: wake_first.induct) simp_all

lemma single_worker_set_worker:
  "single_worker s \<Longrightarrow> i < length (workers s) \<Longrightarrow> joinable (workers s ! i) \<Longrightarrow>
   single_worker (set_worker i st s)"
  by (simp add: single_worker_def set_worker_simps filter_joinable_update)

lemma ordered_set_worker:
  assumes sw: "single_worker s" and io: "in_order tr s"
    and w: "workers s0 = workers s"
    and i: "i < length (workers s)" and j: "joinable (workers s ! i)"
    and ev: "map state_ptr (somes [held_task (workers s ! i)]) @ dequeued evs =
             called evs @ map state_ptr (somes [held_task (Thread st)])"
  shows "single_worker (set_worker i st s0) \<and> in_order (tr @ evs) (set_worker i st s0)"
proof -
  let ?s' = "set_worker i st s0"
  from sw w have sw0: "single_worker s0" by (simp add: single_worker_def)
  with i j w have sw': "single_worker ?s'" by (simp add: single_worker_set_worker)
  have "held ?s' = somes [held_task (workers ?s' ! i)]"
    using sw' i w by (intro held_single) (simp_all add: set_worker_simps)
  then have h': "held ?s' = somes [held_task (Thread st)]"
    using i w by (simp add: set_worker_simps)
  have h: "held s = somes [held_task (workers s ! i)]" using sw i j by (rule held_single)
  from io have "dequeued tr = called tr @ map state_ptr (held s)" by (simp add: in_order_def)
  then have "dequeued (tr @ evs) = called tr @ (map state_ptr (somes [held_task (workers s ! i)]) @ dequeued evs)"
    by (simp add: dequeued_append h)
  also have "\<dots> = called (tr @ evs) @ map state_ptr (held ?s')"
    by (simp only: ev h' called_append append_assoc)
  finally have "in_order (tr @ evs) ?s'" by (simp add: in_order_def)
  with sw' show ?thesis ..
qed

lemma ordered_critical:
  assumes sw: "single_worker s" and io: "in_order tr s" and i: "i < length (workers s)"
    and ws: "workers s ! i = Thread Loop_top \<or> workers s ! i = Thread Woken"
  shows "single_worker (critical_section i s) \<and>
         in_order (tr @ observe_critical i s) (critical_section i s)"
proof -
  from ws have j: "joinable (workers s ! i)" and h: "held_task (workers s ! i) = None" by auto
  show ?thesis
  proof (cases "isRunning s")
    case False
    with ordered_set_worker [OF sw io refl i j, of "[]" Returned] h show ?thesis
      by (simp add: critical_section_def observe_critical_def)
  next
    case True
    show ?thesis
    proof (cases "tasks s")
      case Nil
      with True ordered_set_worker [OF sw io refl i j, of "[]" Blocked] h show ?thesis
        by (simp add: critical_section_def observe_critical_def)
    next
      case (Cons x q)
      have w: "workers (s\<lparr>tasks := q\<rparr>) = workers s" by simp
      show ?thesis
      proof (cases x)
        case None
        with True Cons ordered_set_worker [OF sw io w i j, of "[]" "Popped None"] h show ?thesis
          by (simp add: critical_section_def observe_critical_def)
      next
        case (Some t)
        with True Cons
          ordered_set_worker [OF sw io w i j, of "[Dequeued i (state_ptr t)]" "Popped (Some t)"] h
        show ?thesis
          by (simp add: critical_section_def observe_critical_def)
      qed
    qed
  qed
qed

lemma ordered_execute:
  assumes sw: "single_worker s" and io: "in_order tr s" and i: "i < length (workers s)"
    and ws: "workers s ! i = Thread (Popped task)"
  shows "single_worker (execute i task s) \<and>
         in_order (tr @ (case task of None \<Rightarrow> [] | Some t \<Rightarrow> [Called i (state_ptr t)]))
           (execute i task s)"
proof -
  from ws have j: "joinable (workers s ! i)" by simp
  show ?thesis
  proof (cases task)
    case None
    with ordered_set_worker [OF sw io refl i j, of "[]" Loop_top] ws show ?thesis
      by (simp add: execute_def)
  next
    case (Some t)
    show ?thesis
    proof (cases "invoke_packaged t s")
      case None
      with Some ordered_set_worker [OF sw io refl i j, of "[Called i (state_ptr t)]" Terminated] ws
      show ?thesis by (simp add: execute_def)
    next
      case (Some s')
      then have w: "workers s' = workers s" by (rule invoke_packaged_frame)
      from Some \<open>task = Some t\<close>
        ordered_set_worker [OF sw io w i j, of "[Called i (state_ptr t)]" Loop_top] ws
      show ?thesis by (simp add: execute_def)
    qed
  qed
qed

lemma ordered_perform:
  assumes sw: "single_worker s" and io: "in_order tr s"
  shows "single_worker (perform a s) \<and> in_order (tr @ observe a s) (perform a s)"
proof (cases a)
  case (Push g)
  have "workers (push g s) = wake_first (workers s)"
    by (simp add: push_def make_shared_packaged_task_def pushTask_def notify_one_def)
  then have "single_worker (push g s)"
    using sw by (simp add: single_worker_def filter_joinable_wake_first)
  moreover have "held (push g s) = held s"
    by (simp add: push_def make_shared_packaged_task_def pushTask_def held_notify_one)
       (simp add: held_def)
  ultimately show ?thesis
    using io Push by (simp add: in_order_def dequeued_append called_append)
next
  case (Assign u)
  with assms show ?thesis
    by (simp add: single_worker_def in_order_def held_def assign_def)
next
  case (Wakeup i)
  have "single_worker (spurious_wakeup i s)"
    using sw by (simp add: single_worker_def spurious_wakeup_def filter_joinable_update joinable_wake)
  with io Wakeup show ?thesis
    by (simp add: in_order_def held_spurious_wakeup)
next
  case (Step i)
  show ?thesis
  proof (cases "i < length (workers s)")
    case False
    with assms Step show ?thesis by (simp add: worker_step_def)
  next
    case i: True
    show ?thesis
    proof (cases "workers s ! i")
      case Not_a_thread
      with assms Step i show ?thesis by (simp add: worker_step_def)
    next
      case (Thread st)
      show ?thesis
      proof (cases st)
        case Loop_top
        with Thread Step i ordered_critical [OF sw io i] show ?thesis
          by (simp add: worker_step_def)
      next
        case Woken
        with Thread Step i ordered_critical [OF sw io i] show ?thesis
          by (simp add: worker_step_def)
      next
        case (Popped task)
        with Thread have "workers s ! i = Thread (Popped task)" by simp
        from ordered_execute [OF sw io i this] Thread Popped Step i show ?thesis
          by (cases task) (simp_all add: worker_step_def)
      qed (use assms Step i Thread in \<open>simp_all add: worker_step_def\<close>)
    qed
  qed
qed

lemma ordered_run:
  assumes "single_worker s" and "in_order tr s"
  shows "in_order (fst (run acts (tr, s))) (snd (run acts (tr, s)))"
  using assms
proof (induction acts arbitrary: tr s)
  case Nil
  then show ?case by simp
next
  case (Cons a acts)
  from ordered_perform [OF Cons.prems, of a] Cons.IH show ?case by simp
qed

lemma somes_replicate_None: "somes (replicate n None) = []"
  by (induction n) simp_all

lemma started_eq:
  assumes "start (TaskManager size_arg hw w) = Some s0"
  shows "s0 = \<lparr> isRunning = True, poolSize = (if size_arg = 0 then hw else size_arg), tasks = [],
     workers = replicate size_arg Not_a_thread @
               replicate (if size_arg = 0 then hw else size_arg) (Thread Loop_top),
     shared = (\<lambda>p. NotReady), next_shared = 0, world = w \<rparr>"
  using assms by (auto simp add: start_eq TaskManager_def)

lemma started_consistent:
  assumes "start (TaskManager size_arg hw w) = Some s0"
  shows "consistent [] s0" and "in_order [] s0" and "isRunning s0"
    and "single_worker s0 \<longleftrightarrow> poolSize s0 \<le> 1"
proof -
  note s0 = started_eq [OF assms]
  have h: "held s0 = []"
    by (subst s0) (simp add: held_def somes_append somes_replicate_None)
  have q: "queued s0 = []" by (subst s0) (simp add: queued_def)
  have "Thread Terminated \<notin> set (workers s0)" by (subst s0) auto
  then show "consistent [] s0" by (simp add: consistent_def well_formed_def live_def h q)
  show "in_order [] s0" by (simp add: in_order_def h)
  show "isRunning s0" by (subst s0) simp
  show "single_worker s0 \<longleftrightarrow> poolSize s0 \<le> 1"
    by (subst s0, subst s0) (simp add: single_worker_def)
qed

subsection \<open>Following one task through a schedule\<close>

lemma Called_in_called: "Called i p \<in> set tr \<Longrightarrow> p \<in> set (called tr)"
  by (induction tr rule: called.induct) auto

lemma distinct_called_one_worker:
  "distinct (called tr) \<Longrightarrow> Called i p \<in> set tr \<Longrightarrow> Called j p \<in> set tr \<Longrightarrow> i = j"
  by (induction tr rule: called.induct) (auto dest: Called_in_called)

lemma consistent_distinct_called:
  assumes "consistent tr s"
  shows "distinct (called tr)"
proof -
  from assms have de: "distinct (enqueued tr)"
    and eq: "enqueued tr = dequeued tr @ map state_ptr (queued s)"
    and ms: "mset (dequeued tr) = mset (called tr) + mset (map state_ptr (held s))"
    unfolding consistent_def by blast+
  from de have "distinct (dequeued tr)" unfolding eq by simp
  moreover from ms have "mset (dequeued tr) = mset (called tr @ map state_ptr (held s))"
    by simp
  ultimately have "distinct (called tr @ map state_ptr (held s))"
    using mset_eq_imp_distinct_iff by blast
  then show ?thesis by simp
qed











lemma run_trace: "run acts (tr, s) = (tr @ trace acts s, final acts s)"
proof (induction acts arbitrary: tr s)
  case Nil
  show ?case by (simp add: trace_def final_def)
next
  case (Cons a acts)
  have "run (a # acts) (tr, s) = run acts (tr @ observe a s, perform a s)" by simp
  also have "\<dots> = ((tr @ observe a s) @ trace acts (perform a s), final acts (perform a s))"
    by (rule Cons.IH)
  also have "trace acts (perform a s) = fst (run acts ([], perform a s))" by (simp add: trace_def)
  finally show ?case
    using Cons.IH [of "observe a s" "perform a s"]
    by (simp add: trace_def final_def)
qed

lemma wake_first_Returned: "Thread Returned \<in> set (wake_first ts) \<longleftrightarrow> Thread Returned \<in> set ts"
  by (induction ts rule: wake_first.induct) auto

lemma wake_Returned: "wake t = Thread Returned \<longleftrightarrow> t = Thread Returned"
  by (induction t rule: wake.induct) simp_all

lemma worker_step_not_Returned:
  assumes r: "isRunning s" and nr: "Thread Returned \<notin> set (workers s)"
  shows "Thread Returned \<notin> set (workers (worker_step i s))"
proof (cases "i < length (workers s)")
  case False
  with nr show ?thesis by (simp add: worker_step_def)
next
  case True
  have c: "workers (critical_section i s) ! i \<noteq> Thread Returned"
    using r True by (simp add: critical_section_def set_worker_simps)
  have e: "workers (execute i task s) ! i \<noteq> Thread Returned" for task
    using True by (simp add: execute_def set_worker_simps invoke_packaged_eq split: option.splits)
  have "workers (worker_step i s) ! i \<noteq> Thread Returned"
  proof (cases "workers s ! i")
    case Not_a_thread
    with True show ?thesis by (simp add: worker_step_def)
  next
    case (Thread st)
    with True c e nr show ?thesis
      by (cases st) (auto simp add: worker_step_def dest: nth_mem)
  qed
  with nr show ?thesis by (subst worker_step_workers) (simp add: not_in_update)
qed

lemma running_perform:
  assumes "running s"
  shows "running (perform a s)"
proof (cases a)
  case (Step i)
  with assms show ?thesis
    by (simp add: running_def worker_step_isRunning worker_step_not_Returned)
next
  case (Wakeup i)
  from assms have nr: "Thread Returned \<notin> set (workers s)" by (simp add: running_def)
  have "Thread Returned \<notin> set ((workers s)[i := wake (workers s ! i)])"
    if "i < length (workers s)"
  proof (rule not_in_update [OF nr])
    from that nr have "workers s ! i \<noteq> Thread Returned" by (auto dest: nth_mem)
    then show "Thread Returned \<noteq> wake (workers s ! i)" by (metis wake_Returned)
  qed
  with assms Wakeup show ?thesis
    by (simp add: running_def spurious_wakeup_def)
next
  case (Push g)
  with assms show ?thesis
    by (simp add: running_def push_def make_shared_packaged_task_def pushTask_def notify_one_def
        wake_first_Returned)
next
  case (Assign u)
  with assms show ?thesis by (simp add: running_def assign_def)
qed

lemma running_run:
  assumes "running s"
  shows "running (snd (run acts (tr, s)))"
  using assms
proof (induction acts arbitrary: tr s)
  case Nil
  then show ?case by simp
next
  case (Cons a acts)
  from Cons.IH [OF running_perform [OF Cons.prems]] show ?case by simp
qed


lemma dispatchCallback_push:
  "fn (world s) \<noteq> None \<Longrightarrow> cb (world s) \<noteq> None \<Longrightarrow>
   dispatchCallback fn cb args s =
     (Future (next_shared s),
      push (Returns_void (task_then_callback (\<lambda>w. invoke (fn w) (args w) w)
        (\<lambda>result w. call_through (cb w) result w))) s)"
  by (simp add: dispatchCallback_def push_def make_shared_packaged_task_def get_future_def)

lemma dispatchCallback_member_callback_push:
  "fn (world s) \<noteq> None \<Longrightarrow> mcb (world s) \<noteq> None \<Longrightarrow>
   dispatchCallback_member_callback fn mcb inst args s =
     (Future (next_shared s),
      push (Returns_void (task_then_callback (\<lambda>w. invoke (fn w) (args w) w)
        (\<lambda>result w. invoke_mem_fn (mcb w) (inst w) result w))) s)"
  by (simp add: dispatchCallback_member_callback_def push_def make_shared_packaged_task_def
      get_future_def)

lemma dispatchCallback_member_both_push:
  "mfn (world s) \<noteq> None \<Longrightarrow> mcb (world s) \<noteq> None \<Longrightarrow>
   dispatchCallback_member_both mfn mcb inst args s =
     (Future (next_shared s),
      push (Returns_void (task_then_callback (\<lambda>w. invoke_mem_fn (mfn w) (inst w) (args w) w)
        (\<lambda>result w. invoke_mem_fn (mcb w) (inst w) result w))) s)"
  by (simp add: dispatchCallback_member_both_def push_def make_shared_packaged_task_def
      get_future_def)

lemma push_simps:
  "isRunning (push g s) = isRunning s"
  "tasks (push g s) = tasks s @ [Some (Packaged_task g (next_shared s))]"
  "workers (push g s) = wake_first (workers s)"
  "shared (push g s) = (shared s)(next_shared s := NotReady)"
  "next_shared (push g s) = Suc (next_shared s)"
  "world (push g s) = world s"
  by (simp_all add: push_def make_shared_packaged_task_def pushTask_def notify_one_def)

lemma length_wake_first: "length (wake_first ts) = length ts"
  by (induction ts rule: wake_first.induct) simp_all


subsection \<open>Callback tasks\<close>


lemma run_stored_callback:
  "callback_contract T C w (fst (run_stored (Returns_void (task_then_callback T C)) w))
     (snd (run_stored (Returns_void (task_then_callback T C)) w))"
  by (auto simp add: callback_contract_def task_then_callback_def split: prod.splits sum.splits)

lemma worker_step_Popped:
  assumes "i < length (workers s)" and "workers s ! i = Thread (Popped (Some t))"
    and "shared s (state_ptr t) = NotReady"
  shows "worker_step i s =
    s\<lparr>workers := (workers s)[i := Thread Loop_top],
      shared := (shared s)(state_ptr t := fst (run_stored (stored_task t) (world s))),
      world := snd (run_stored (stored_task t) (world s))\<rparr>"
  using assms by (simp add: worker_step_def execute_def invoke_packaged_eq set_worker_def)

lemma callback_task_called:
  assumes i: "i < length (workers s2)"
    and w: "workers s2 ! i = Thread (Popped (Some (Packaged_task (Returns_void (task_then_callback T C)) p)))"
    and n: "shared s2 p = NotReady"
  shows "callback_contract T C (world s2) (shared (worker_step i s2) p) (world (worker_step i s2))"
proof -
  let ?t = "Packaged_task (Returns_void (task_then_callback T C)) p"
  from n have "shared s2 (state_ptr ?t) = NotReady" by simp
  from worker_step_Popped [OF i w this] run_stored_callback [of T C "world s2"]
  show ?thesis by simp
qed

subsection \<open>No wake-up is lost, and the workers drain the queue\<close>

lemma run_two:
  "run (acts @ acts') ([], s) =
     (trace acts s @ trace acts' (final acts s), final acts' (final acts s))"
proof -
  have "run (acts @ acts') ([], s) = run acts' (run acts ([], s))" by (rule run_append)
  also have "run acts ([], s) = ([] @ trace acts s, final acts s)" by (rule run_trace)
  also have "run acts' ([] @ trace acts s, final acts s) =
      (([] @ trace acts s) @ trace acts' (final acts s), final acts' (final acts s))"
    by (rule run_trace)
  finally show ?thesis by simp
qed

lemma final_append: "final (acts @ acts') s = final acts' (final acts s)"
  by (subst final_def) (simp add: run_two)

lemma trace_append: "trace (acts @ acts') s = trace acts s @ trace acts' (final acts s)"
  by (subst trace_def) (simp add: run_two)

lemma final_Step: "final [Step i] s = worker_step i s"
  by (simp add: final_def)

lemma length_filter_update:
  "i < length ws \<Longrightarrow>
   length (filter P (ws[i := t])) + (if P (ws ! i) then 1 else 0) =
   length (filter P ws) + (if P t then 1 else 0)"
proof (induction ws arbitrary: i)
  case Nil
  then show ?case by simp
next
  case (Cons w ws)
  show ?case
  proof (cases i)
    case 0
    then show ?thesis by simp
  next
    case (Suc j)
    with Cons.prems have "j < length ws" by simp
    from Cons.IH [OF this] Suc show ?thesis by simp
  qed
qed

lemma pending_set_worker:
  assumes "i < length (workers s)"
  shows "pending (set_worker i st s) + (if popped (workers s ! i) then 1 else 0) =
         pending s + (if popped (Thread st) then 1 else 0)"
  using length_filter_update [OF assms, of popped "Thread st"]
  by (simp add: pending_def set_worker_simps)

lemma worker_step_progress:
  assumes r: "isRunning s" and wf: "well_formed s" and cp: "can_progress s i"
  shows "Suc (pending (worker_step i s)) = pending s"
proof -
  from cp have i: "i < length (workers s)"
    and c: "popped (workers s ! i) \<or> (runnable (workers s ! i) \<and> tasks s \<noteq> [])"
    by (simp_all add: can_progress_def)
  show ?thesis
  proof (cases "popped (workers s ! i)")
    case True
    then obtain task where ws: "workers s ! i = Thread (Popped task)"
      by (cases "workers s ! i" rule: popped.cases) simp_all
    have e: "worker_step i s = execute i task s" using i ws by (simp add: worker_step_def)
    have w: "workers (worker_step i s) ! i = Thread Loop_top"
      using wf i ws by (rule worker_step_calls)
    have "workers (worker_step i s) = (workers s)[i := Thread Loop_top]"
      by (subst worker_step_workers) (simp add: w)
    moreover have "tasks (worker_step i s) = tasks s" by (simp add: e execute_frame)
    ultimately have "pending (worker_step i s) = pending (set_worker i Loop_top s)"
      by (simp add: pending_def set_worker_simps)
    with pending_set_worker [OF i, of Loop_top] True show ?thesis by simp
  next
    case False
    with c have ru: "runnable (workers s ! i)" and ne: "tasks s \<noteq> []" by simp_all
    from ru False have ws: "workers s ! i = Thread Loop_top \<or> workers s ! i = Thread Woken"
      by (cases "workers s ! i" rule: runnable.cases) simp_all
    let ?s1 = "s\<lparr>tasks := tl (tasks s)\<rparr>"
    have e: "worker_step i s = set_worker i (Popped (hd (tasks s))) ?s1"
      using i ws r ne by (auto simp add: worker_step_def critical_section_def)
    have i1: "i < length (workers ?s1)" using i by simp
    from pending_set_worker [OF i1, of "Popped (hd (tasks s))"] False
    have "pending (worker_step i s) = Suc (pending ?s1)" by (simp add: e)
    moreover have "pending s = Suc (Suc (pending ?s1))"
      using ne by (cases "tasks s") (simp_all add: pending_def)
    ultimately show ?thesis by simp
  qed
qed

lemma worker_step_no_progress:
  assumes r: "isRunning s" and cp: "\<not> can_progress s i"
  shows "pending (worker_step i s) = pending s" and "tasks (worker_step i s) = tasks s"
proof -
  have "pending (worker_step i s) = pending s \<and> tasks (worker_step i s) = tasks s"
  proof (cases "i < length (workers s)")
    case False
    then show ?thesis by (simp add: worker_step_def)
  next
    case i: True
    with cp have np: "\<not> popped (workers s ! i)"
      and e: "runnable (workers s ! i) \<longrightarrow> tasks s = []"
      by (auto simp add: can_progress_def)
    show ?thesis
    proof (cases "runnable (workers s ! i)")
      case False
      then have "worker_step i s = s"
        using i by (cases "workers s ! i" rule: runnable.cases) (simp_all add: worker_step_def)
      then show ?thesis by simp
    next
      case True
      with np have ws: "workers s ! i = Thread Loop_top \<or> workers s ! i = Thread Woken"
        by (cases "workers s ! i" rule: runnable.cases) simp_all
      from True e have "tasks s = []" by simp
      with ws i r have s': "worker_step i s = set_worker i Blocked s"
        by (auto simp add: worker_step_def critical_section_def)
      from pending_set_worker [OF i, of Blocked] np show ?thesis
        by (simp add: s' set_worker_simps)
    qed
  qed
  then show "pending (worker_step i s) = pending s" and "tasks (worker_step i s) = tasks s"
    by simp_all
qed

lemma worker_step_pending_le:
  assumes "isRunning s" and "well_formed s"
  shows "pending (worker_step i s) \<le> pending s"
proof (cases "can_progress s i")
  case True
  with worker_step_progress [OF assms True] show ?thesis by simp
next
  case False
  with worker_step_no_progress(1) [OF assms(1) False] show ?thesis by simp
qed

lemma worker_step_other: "j \<noteq> i \<Longrightarrow> workers (worker_step i s) ! j = workers s ! j"
  by (subst worker_step_workers) simp

lemma exists_progress:
  assumes a: "awake s" and p: "0 < pending s"
  shows "\<exists>j < length (workers s). can_progress s j"
proof (cases "filter popped (workers s) = []")
  case False
  then obtain t where "t \<in> set (workers s)" and "popped t"
    by (auto simp add: filter_empty_conv)
  then obtain j where "j < length (workers s)" and "workers s ! j = t"
    by (auto simp add: in_set_conv_nth)
  with \<open>popped t\<close> show ?thesis by (auto simp add: can_progress_def)
next
  case True
  with p have ne: "tasks s \<noteq> []" by (simp add: pending_def)
  with a obtain t where "t \<in> set (workers s)" and "runnable t" by (auto simp add: awake_def)
  then obtain j where "j < length (workers s)" and "workers s ! j = t"
    by (auto simp add: in_set_conv_nth)
  with \<open>runnable t\<close> ne show ?thesis by (auto simp add: can_progress_def)
qed

lemma steps_frame:
  assumes "isRunning s" and "well_formed s"
  shows "isRunning (final (map Step [0..<k]) s) \<and> well_formed (final (map Step [0..<k]) s) \<and>
         length (workers (final (map Step [0..<k]) s)) = length (workers s) \<and>
         pending (final (map Step [0..<k]) s) \<le> pending s"
proof (induction k)
  case 0
  from assms show ?case by (simp add: final_def)
next
  case (Suc k)
  let ?sk = "final (map Step [0..<k]) s"
  have e: "final (map Step [0..<k] @ [Step k]) s = worker_step k ?sk"
    by (simp add: final_append final_Step)
  from Suc worker_step_pending_le [of ?sk k] show ?case
    by (simp add: e worker_step_isRunning well_formed_step worker_step_length)
qed

lemma round_scan:
  assumes r: "isRunning s" and wf: "well_formed s"
  shows "pending (final (map Step [0..<k]) s) < pending s \<or>
         (pending (final (map Step [0..<k]) s) = pending s \<and>
          tasks (final (map Step [0..<k]) s) = tasks s \<and>
          (\<forall>j. k \<le> j \<longrightarrow> workers (final (map Step [0..<k]) s) ! j = workers s ! j) \<and>
          (\<forall>j < k. \<not> can_progress s j))"
proof (induction k)
  case 0
  show ?case by (simp add: final_def)
next
  case (Suc k)
  let ?sk = "final (map Step [0..<k]) s"
  have e: "final (map Step [0..<k] @ [Step k]) s = worker_step k ?sk"
    by (simp add: final_append final_Step)
  from steps_frame [OF r wf, of k] have rk: "isRunning ?sk" and wfk: "well_formed ?sk"
    and lk: "length (workers ?sk) = length (workers s)"
    by simp_all
  have le: "pending (worker_step k ?sk) \<le> pending ?sk"
    using rk wfk by (rule worker_step_pending_le)
  from Suc.IH show ?case
  proof
    assume "pending ?sk < pending s"
    with le show ?thesis by (simp add: e)
  next
    assume same: "pending ?sk = pending s \<and> tasks ?sk = tasks s \<and>
      (\<forall>j. k \<le> j \<longrightarrow> workers ?sk ! j = workers s ! j) \<and> (\<forall>j < k. \<not> can_progress s j)"
    then have wk: "workers ?sk ! k = workers s ! k" by simp
    with same lk have cp: "can_progress ?sk k \<longleftrightarrow> can_progress s k"
      by (simp add: can_progress_def)
    show ?thesis
    proof (cases "can_progress s k")
      case True
      with cp have "can_progress ?sk k" by simp
      from worker_step_progress [OF rk wfk this] same show ?thesis by (simp add: e)
    next
      case False
      with cp have n: "\<not> can_progress ?sk k" by simp
      have "\<forall>j < Suc k. \<not> can_progress s j" using same False by (auto simp add: less_Suc_eq)
      moreover have "\<forall>j. Suc k \<le> j \<longrightarrow> workers (worker_step k ?sk) ! j = workers s ! j"
        using same by (simp add: worker_step_other)
      ultimately show ?thesis
        using worker_step_no_progress [OF rk n] same by (simp add: e)
    qed
  qed
qed

lemma round_progress:
  assumes r: "isRunning s" and wf: "well_formed s" and a: "awake s" and p: "0 < pending s"
  shows "pending (final (one_round (length (workers s))) s) < pending s"
proof -
  from exists_progress [OF a p] obtain j where "j < length (workers s)" "can_progress s j"
    by blast
  with round_scan [OF r wf, of "length (workers s)"] show ?thesis
    by (auto simp add: one_round_def)
qed

lemma runnable_joinable: "runnable t \<Longrightarrow> joinable t"
  by (cases t rule: runnable.cases) simp_all

lemma awakeI:
  assumes "i < length (workers s)" and "runnable (workers s ! i)"
  shows "awake s"
proof -
  from assms have "workers s ! i \<in> set (workers s)" by simp
  with assms(2) runnable_joinable [OF assms(2)] show ?thesis
    unfolding awake_def by blast
qed

lemma awake_step:
  assumes r: "isRunning s" and wf: "well_formed s" and a: "awake s"
  shows "awake (worker_step i s)"
proof (cases "i < length (workers s) \<and> runnable (workers s ! i)")
  case False
  then have "worker_step i s = s"
    by (cases "workers s ! i" rule: runnable.cases) (auto simp add: worker_step_def)
  with a show ?thesis by simp
next
  case True
  then have i: "i < length (workers s)" and ru: "runnable (workers s ! i)" by simp_all
  have i': "i < length (workers (worker_step i s))" using i by (simp add: worker_step_length)
  show ?thesis
  proof (cases "popped (workers s ! i)")
    case True
    then obtain task where "workers s ! i = Thread (Popped task)"
      by (cases "workers s ! i" rule: popped.cases) simp_all
    with wf i have "workers (worker_step i s) ! i = Thread Loop_top"
      by (rule worker_step_calls)
    with i' show ?thesis by (intro awakeI [of i]) simp_all
  next
    case False
    with ru have ws: "workers s ! i = Thread Loop_top \<or> workers s ! i = Thread Woken"
      by (cases "workers s ! i" rule: runnable.cases) simp_all
    show ?thesis
    proof (cases "tasks s")
      case Nil
      with ws i r have s': "worker_step i s = set_worker i Blocked s"
        by (auto simp add: worker_step_def critical_section_def)
      have "Thread Blocked \<in> set (workers (set_worker i Blocked s))"
        using i by (simp add: set_worker_simps set_update_memI)
      then have "\<exists>t \<in> set (workers (set_worker i Blocked s)). joinable t" by force
      with Nil show ?thesis by (simp add: s' awake_def set_worker_simps)
    next
      case (Cons x q)
      with ws i r have "worker_step i s = set_worker i (Popped x) (s\<lparr>tasks := q\<rparr>)"
        by (auto simp add: worker_step_def critical_section_def)
      then have "workers (worker_step i s) ! i = Thread (Popped x)"
        using i by (simp add: set_worker_simps)
      with i' show ?thesis by (intro awakeI [of i]) simp_all
    qed
  qed
qed

lemma wake_first_wakes:
  "Thread Blocked \<in> set ts \<Longrightarrow> Thread Woken \<in> set (wake_first ts)"
  by (induction ts rule: wake_first.induct) auto

lemma wake_first_idle: "Thread Blocked \<notin> set ts \<Longrightarrow> wake_first ts = ts"
  by (induction ts rule: wake_first.induct) auto

lemma joinable_set_wake_first:
  "(\<exists>t \<in> set (wake_first ts). joinable t) \<longleftrightarrow> (\<exists>t \<in> set ts. joinable t)"
  by (induction ts rule: wake_first.induct) auto

lemma awake_push:
  assumes r: "running s" and wf: "well_formed s" and j: "\<exists>t \<in> set (workers s). joinable t"
  shows "awake (push g s)"
proof -
  have "\<exists>t \<in> set (wake_first (workers s)). runnable t"
  proof (cases "Thread Blocked \<in> set (workers s)")
    case True
    then have "Thread Woken \<in> set (wake_first (workers s))" by (rule wake_first_wakes)
    then show ?thesis by force
  next
    case False
    from j obtain t where t: "t \<in> set (workers s)" and jt: "joinable t" by blast
    from r t have "t \<noteq> Thread Returned" by (auto simp add: running_def)
    moreover from wf t have "t \<noteq> Thread Terminated" by (auto simp add: well_formed_def)
    moreover from False t have "t \<noteq> Thread Blocked" by auto
    ultimately have "runnable t" using jt by (cases t rule: runnable.cases) simp_all
    with t False show ?thesis by (auto simp add: wake_first_idle)
  qed
  with j show ?thesis by (simp add: awake_def push_simps joinable_set_wake_first)
qed

lemma runnable_wake: "runnable t \<Longrightarrow> wake t = t"
  by (cases t rule: runnable.cases) simp_all

lemma awake_wakeup:
  assumes "awake s"
  shows "awake (spurious_wakeup i s)"
proof -
  have keep: "\<exists>t' \<in> set (workers (spurious_wakeup i s)). P t'"
    if t: "t \<in> set (workers s)" and p: "P t" and w: "P (wake t)" for t and P
  proof (cases "i < length (workers s)")
    case False
    with t p show ?thesis by (auto simp add: spurious_wakeup_def)
  next
    case True
    from t obtain k where k: "k < length (workers s)" "workers s ! k = t"
      by (auto simp add: in_set_conv_nth)
    let ?ws = "(workers s)[i := wake (workers s ! i)]"
    have "?ws ! k \<in> set ?ws" using k by simp
    moreover have "P (?ws ! k)" using k p w True by (cases "k = i") auto
    ultimately show ?thesis using True by (auto simp add: spurious_wakeup_def)
  qed
  have t: "tasks (spurious_wakeup i s) = tasks s" by (simp add: spurious_wakeup_def)
  from assms obtain t where jt: "t \<in> set (workers s)" "joinable t" by (auto simp add: awake_def)
  have "\<exists>t' \<in> set (workers (spurious_wakeup i s)). joinable t'"
    by (rule keep [of t joinable]) (simp_all add: joinable_wake jt)
  moreover have "\<exists>t' \<in> set (workers (spurious_wakeup i s)). runnable t'" if "tasks s \<noteq> []"
  proof -
    from assms that obtain t where t: "t \<in> set (workers s)" "runnable t"
      by (auto simp add: awake_def)
    show ?thesis by (rule keep [of t runnable]) (simp_all add: runnable_wake t)
  qed
  ultimately show ?thesis by (simp add: awake_def t)
qed

lemma awake_perform:
  assumes c: "consistent tr s" and r: "running s" and a: "awake s"
  shows "awake (perform a' s)"
proof -
  from c have wf: "well_formed s" by (simp add: consistent_def)
  from r have ir: "isRunning s" by (simp add: running_def)
  show ?thesis
  proof (cases a')
    case (Step i)
    with awake_step [OF ir wf a] show ?thesis by simp
  next
    case (Wakeup i)
    with awake_wakeup [OF a] show ?thesis by simp
  next
    case (Push g)
    from a have "\<exists>t \<in> set (workers s). joinable t" by (simp add: awake_def)
    with awake_push [OF r wf] Push show ?thesis by simp
  next
    case (Assign u)
    with a show ?thesis by (simp add: awake_def assign_def)
  qed
qed

lemma awake_run:
  assumes "consistent tr s" and "running s" and "awake s"
  shows "awake (snd (run acts (tr, s)))"
  using assms
proof (induction acts arbitrary: tr s)
  case Nil
  then show ?case by simp
next
  case (Cons a acts)
  from Cons.IH [OF consistent_perform [OF Cons.prems(1)] running_perform [OF Cons.prems(2)]
      awake_perform [OF Cons.prems]]
  show ?case by simp
qed

lemma run_invariants:
  assumes c: "consistent tr s" and r: "running s" and a: "awake s"
  shows "consistent (tr @ trace acts s) (final acts s)"
    and "running (final acts s)" and "awake (final acts s)"
proof -
  have e: "run acts (tr, s) = (tr @ trace acts s, final acts s)" by (rule run_trace)
  from consistent_run [OF c, of acts] show "consistent (tr @ trace acts s) (final acts s)"
    by (simp add: e)
  from running_run [OF r, of acts tr] show "running (final acts s)" by (simp add: e)
  from awake_run [OF c r a, of acts] show "awake (final acts s)" by (simp add: e)
qed

lemma rounds_Suc: "rounds (Suc k) n = one_round n @ rounds k n"
  by (simp add: rounds_def)

lemma rounds_drain:
  assumes "consistent tr s" and "running s" and "awake s" and "pending s \<le> k"
  shows "pending (final (rounds k (length (workers s))) s) = 0"
  using assms
proof (induction k arbitrary: tr s)
  case 0
  then show ?case by (simp add: rounds_def final_def)
next
  case (Suc k)
  let ?n = "length (workers s)"
  let ?s' = "final (one_round ?n) s"
  from Suc.prems have r: "isRunning s" and wf: "well_formed s"
    by (simp_all add: running_def consistent_def)
  from steps_frame [OF r wf, of ?n] have l: "length (workers ?s') = ?n"
    and le: "pending ?s' \<le> pending s"
    by (simp_all add: one_round_def)
  have "pending ?s' \<le> k"
  proof (cases "pending s")
    case 0
    with le show ?thesis by simp
  next
    case (Suc m)
    then have "0 < pending s" by simp
    from round_progress [OF r wf Suc.prems(3) this] Suc.prems(4) show ?thesis by simp
  qed
  from Suc.IH [OF run_invariants [OF Suc.prems(1-3)] this]
  show ?case by (simp add: rounds_Suc final_append l)
qed

lemma no_popped_somes: "filter popped ws = [] \<Longrightarrow> somes (map held_task ws) = []"
proof (induction ws)
  case Nil
  show ?case by simp
next
  case (Cons w ws)
  then have "\<not> popped w" and "filter popped ws = []" by (auto split: if_splits)
  with Cons.IH show ?case by (cases w rule: popped.cases) simp_all
qed

lemma drained:
  assumes "pending s = 0"
  shows "tasks s = []" and "held s = []"
  using assms by (simp_all add: pending_def held_def no_popped_somes)

lemma trace_Cons: "trace (a # acts) s = observe a s @ trace acts (perform a s)"
  using trace_append [of "[a]" acts s] by (simp add: trace_def final_def)

lemma enqueued_observe_Step: "enqueued (observe (Step i) s) = []"
  by (simp add: observe_critical_def split: thread.splits wstate.splits option.splits list.splits)

lemma enqueued_steps: "set acts \<subseteq> range Step \<Longrightarrow> enqueued (trace acts s) = []"
proof (induction acts arbitrary: s)
  case Nil
  show ?case by (simp add: trace_def)
next
  case (Cons a acts)
  then obtain i where "a = Step i" by auto
  with Cons show ?case
    by (simp add: trace_Cons enqueued_append enqueued_observe_Step del: observe.simps)
qed

lemma enqueued_rounds: "enqueued (trace (rounds k n) s) = []"
  by (rule enqueued_steps) (auto simp add: rounds_def one_round_def)

text \<open>From a running pool in which no wake-up was lost, rounds of the workers (and no
  wake-up without notification) drain the queue and call every task that was enqueued.\<close>

lemma all_called:
  assumes c: "consistent tr s" and r: "running s" and a: "awake s" and k: "pending s \<le> k"
  shows "mset (called (tr @ trace (rounds k (length (workers s))) s)) = mset (enqueued tr)"
    and "tasks (final (rounds k (length (workers s))) s) = []"
    and "held (final (rounds k (length (workers s))) s) = []"
proof -
  let ?acts = "rounds k (length (workers s)) :: ('a, 'b, 'c) action list"
  let ?tr' = "tr @ trace ?acts s" and ?s' = "final ?acts s"
  from rounds_drain [OF c r a k] have "pending ?s' = 0" .
  then show t: "tasks ?s' = []" and h: "held ?s' = []" by (rule drained)+
  from run_invariants(1) [OF c r a, of ?acts]
  have eq: "enqueued ?tr' = dequeued ?tr' @ map state_ptr (queued ?s')"
    and ms: "mset (dequeued ?tr') = mset (called ?tr') + mset (map state_ptr (held ?s'))"
    unfolding consistent_def by blast+
  from eq have "enqueued ?tr' = dequeued ?tr'" by (simp add: queued_def t)
  moreover from ms have "mset (dequeued ?tr') = mset (called ?tr')" by (simp add: h)
  moreover have "enqueued ?tr' = enqueued tr" by (simp add: enqueued_append enqueued_rounds)
  ultimately show "mset (called ?tr') = mset (enqueued tr)" by simp
qed

lemma started_awake:
  assumes "start (TaskManager size_arg hw w) = Some s0" and "0 < poolSize s0"
  shows "awake s0" and "running s0"
proof -
  note s0 = started_eq [OF assms(1)]
  from assms(2) have p: "0 < (if size_arg = 0 then hw else size_arg)" by (subst (asm) s0) simp
  have ws: "workers s0 = replicate size_arg Not_a_thread @
      replicate (if size_arg = 0 then hw else size_arg) (Thread Loop_top)"
    and ts: "tasks s0 = []" and ir: "isRunning s0"
    by (subst s0, simp)+
  from p have "Thread Loop_top \<in> set (workers s0)" unfolding ws by simp
  then have "\<exists>t \<in> set (workers s0). joinable t" by force
  then show "awake s0" by (simp add: awake_def ts)
  have "Thread Returned \<notin> set (workers s0)" unfolding ws by auto
  with ir show "running s0" by (simp add: running_def)
qed


subsection \<open>Frames of a schedule\<close>

lemma length_workers_perform: "length (workers (perform a s)) = length (workers s)"
  by (cases a)
     (simp_all add: worker_step_length spurious_wakeup_def push_simps length_wake_first assign_def)


text \<open>A pool without worker threads never calls anything.\<close>

lemma no_workers_never_called:
  assumes "workers s = []"
  shows "called (trace acts s) = []"
  using assms
proof (induction acts arbitrary: s)
  case Nil
  show ?case by (simp add: trace_def)
next
  case (Cons a acts)
  have "length (workers (perform a s)) = 0"
    using Cons.prems by (simp add: length_workers_perform)
  then have "called (trace acts (perform a s)) = []" by (intro Cons.IH) simp
  moreover have "called (observe a s) = []" using Cons.prems by (cases a) simp_all
  ultimately show ?case by (simp add: trace_Cons called_append del: observe.simps)
qed

text \<open>In a running pool a worker at the head of its loop pops the task at the front of the
  queue.\<close>

lemma worker_step_pops:
  assumes "isRunning s" and "i < length (workers s)" and "workers s ! i = Thread Loop_top"
    and "tasks s = x # q"
  shows "worker_step i s = s\<lparr>tasks := q, workers := (workers s)[i := Thread (Popped x)]\<rparr>"
  using assms by (simp add: worker_step_def critical_section_def set_worker_def)

section \<open>The claims\<close>




text \<open>
  C2, as the claim states it, fails: after a task was dispatched and \<open>stop\<close> has signalled,
  a worker returns from its loop although the queue is not empty, and the task it found
  there is neither popped nor executed.
\<close>

theorem worker_returns_with_task_queued:
  "\<not> isRunning stopped_with_work \<and>
   length (tasks stopped_with_work) = 1 \<and>
   workers stopped_with_work ! 0 = Thread Loop_top \<and>
   workers (worker_step 0 stopped_with_work) ! 0 = Thread Returned \<and>
   tasks (worker_step 0 stopped_with_work) = tasks stopped_with_work"
  by (simp add: stopped_with_work_def started_pool_def shutdown_signal_def notify_all_def
      dispatch_def unchanged_def make_shared_packaged_task_def get_future_def pushTask_def
      notify_one_def worker_step_def critical_section_def set_worker_def)

text \<open>
  C2, amended. A worker leaves its loop exactly when, at the head of the loop or woken up in
  \<open>wait\<close>, it finds that shutdown was requested, whatever the queue holds, and the queue is
  left as it is. When it finds the pool running and the queue empty it blocks. When it finds
  the pool running and a task at the front of the queue, it pops exactly that task, and its
  next step executes it: the task's shared state is made ready with the outcome of the stored
  callable, and the worker is back at the head of its loop.
\<close>

theorem worker_loop_exit:
  assumes "i < length (workers s)"
  shows "(workers s ! i \<noteq> Thread Returned \<and> workers (worker_step i s) ! i = Thread Returned \<longleftrightarrow>
            (workers s ! i = Thread Loop_top \<or> workers s ! i = Thread Woken) \<and> \<not> isRunning s) \<and>
         ((workers s ! i = Thread Loop_top \<or> workers s ! i = Thread Woken) \<and> \<not> isRunning s \<longrightarrow>
            tasks (worker_step i s) = tasks s) \<and>
         ((workers s ! i = Thread Loop_top \<or> workers s ! i = Thread Woken) \<and> isRunning s \<and>
          tasks s = [] \<longrightarrow>
            worker_step i s = s\<lparr>workers := (workers s)[i := Thread Blocked]\<rparr>) \<and>
         (\<forall>t q. (workers s ! i = Thread Loop_top \<or> workers s ! i = Thread Woken) \<and> isRunning s \<and>
                tasks s = Some t # q \<and> shared s (state_ptr t) = NotReady \<longrightarrow>
            worker_step i s = s\<lparr>tasks := q, workers := (workers s)[i := Thread (Popped (Some t))]\<rparr> \<and>
            worker_step i (worker_step i s) =
              s\<lparr>tasks := q, workers := (workers s)[i := Thread Loop_top],
                shared := (shared s)(state_ptr t := fst (run_stored (stored_task t) (world s))),
                world := snd (run_stored (stored_task t) (world s))\<rparr>)"
  using assms
  by (auto simp add: worker_step_def critical_section_def set_worker_def execute_def
      invoke_packaged_eq split: thread.splits wstate.splits option.splits)

theorem worker_loop_exit_witness:
  "workers (worker_step 0 stopped_with_work) ! 0 = Thread Returned \<and>
   tasks (worker_step 0 stopped_with_work) \<noteq> [] \<and>
   workers (worker_step 0 started_pool) ! 0 = Thread Blocked \<and>
   tasks (worker_step 0 (snd (dispatch (unchanged (Some work)) (unchanged 1) started_pool))) = [] \<and>
   shared (worker_step 0 (worker_step 0 (snd (dispatch (unchanged (Some work)) (unchanged 1) started_pool)))) 0 =
     Ready_value 2"
proof -
  let ?t = "Packaged_task (Returns (\<lambda>w. invoke (Some work) 1 w)) 0 :: (int list, string, int) packaged_task"
  have s: "\<not> isRunning stopped_with_work" "0 < length (workers stopped_with_work)"
    "workers stopped_with_work ! 0 = Thread Loop_top" "tasks stopped_with_work = [Some ?t]"
    by (simp_all add: stopped_with_work_def started_pool_def shutdown_signal_def notify_all_def
        dispatch_def unchanged_def make_shared_packaged_task_def get_future_def pushTask_def
        notify_one_def)
  from worker_loop_exit [OF s(2)] s
  have a: "workers (worker_step 0 stopped_with_work) ! 0 = Thread Returned"
    and b: "tasks (worker_step 0 stopped_with_work) = tasks stopped_with_work"
    by simp_all
  let ?d = "snd (dispatch (unchanged (Some work)) (unchanged 1) started_pool)"
  have d: "isRunning ?d" "0 < length (workers ?d)" "workers ?d ! 0 = Thread Loop_top"
    "tasks ?d = Some ?t # []" "shared ?d (state_ptr ?t) = NotReady" "world ?d = []"
    by (simp_all add: started_pool_def dispatch_def unchanged_def make_shared_packaged_task_def
        get_future_def pushTask_def notify_one_def)
  from worker_loop_exit [OF d(2)] d(1,3,4,5)
  have "worker_step 0 ?d = ?d\<lparr>tasks := [], workers := (workers ?d)[0 := Thread (Popped (Some ?t))]\<rparr> \<and>
        worker_step 0 (worker_step 0 ?d) =
          ?d\<lparr>tasks := [], workers := (workers ?d)[0 := Thread Loop_top],
            shared := (shared ?d)(state_ptr ?t := fst (run_stored (stored_task ?t) (world ?d))),
            world := snd (run_stored (stored_task ?t) (world ?d))\<rparr>"
    by blast
  then have eq1: "worker_step 0 ?d =
      ?d\<lparr>tasks := [], workers := (workers ?d)[0 := Thread (Popped (Some ?t))]\<rparr>"
    and eq2: "worker_step 0 (worker_step 0 ?d) =
      ?d\<lparr>tasks := [], workers := (workers ?d)[0 := Thread Loop_top],
        shared := (shared ?d)(state_ptr ?t := fst (run_stored (stored_task ?t) (world ?d))),
        world := snd (run_stored (stored_task ?t) (world ?d))\<rparr>"
    by blast+
  have c: "tasks (worker_step 0 ?d) = []" by (subst eq1) simp
  have e: "shared (worker_step 0 (worker_step 0 ?d)) 0 = Ready_value 2"
    by (subst eq2) (simp add: d(6) invoke_def work_def)
  have p: "isRunning started_pool" "0 < length (workers started_pool)"
    "workers started_pool ! 0 = Thread Loop_top" "tasks started_pool = []"
    by (simp_all add: started_pool_def)
  from worker_loop_exit [OF p(2)] p(1,3,4)
  have "worker_step 0 started_pool =
      started_pool\<lparr>workers := (workers started_pool)[0 := Thread Blocked]\<rparr>"
    by blast
  then have f: "workers (worker_step 0 started_pool) ! 0 = Thread Blocked"
    using p(2) by simp
  from a b s(4) c e f show ?thesis by simp
qed


text \<open>
  C3. Each overload of \<open>dispatchCallback\<close>, given a task handle and a callback handle that
  are not null, returns the future of a task that it has put at the end of the queue, with a
  shared state that is not ready. Whenever a worker calls that task, in whatever state that
  happens: if the call of the task callable throws, the exception is stored in the shared
  state of the future and the world is as the task callable left it, the callback has not
  acted on it; if it returns a value, the callback is applied to that value, once, in the
  world the task callable left, and the future is fulfilled (or holds what the callback
  threw). The task callable, the callback, the instance and the arguments are what the
  references given to \<open>dispatchCallback\<close> hold when the worker makes the calls. After the
  call the worker is back at the head of its loop, and the packaged task cannot be invoked a
  second time.
\<close>

theorem callback_only_with_value:
  fixes s :: "('w, 'e, 'r) pool"
    and "function" :: "('w, ('a \<Rightarrow> ('w, 'e, 'x) call) option) reference"
    and mfunction :: "('w, ('i \<Rightarrow> 'a \<Rightarrow> ('w, 'e, 'x) call) option) reference"
    and callback :: "('w, ('x \<Rightarrow> ('w, 'e, 'c) call) option) reference"
    and mcallback :: "('w, ('i \<Rightarrow> 'x \<Rightarrow> ('w, 'e, 'c) call) option) reference"
  shows "(function (world s) \<noteq> None \<and> callback (world s) \<noteq> None \<longrightarrow>
          (\<exists>t. fst (dispatchCallback function callback args s) = Future (state_ptr t) \<and>
              tasks (snd (dispatchCallback function callback args s)) = tasks s @ [Some t] \<and>
              shared (snd (dispatchCallback function callback args s)) (state_ptr t) = NotReady \<and>
              (\<forall>i s2. i < length (workers s2) \<and> workers s2 ! i = Thread (Popped (Some t)) \<and>
                      shared s2 (state_ptr t) = NotReady \<longrightarrow>
                 callback_contract (\<lambda>w. invoke (function w) (args w) w)
                   (\<lambda>result w. call_through (callback w) result w) (world s2)
                   (shared (worker_step i s2) (state_ptr t)) (world (worker_step i s2)) \<and>
                 workers (worker_step i s2) ! i = Thread Loop_top \<and>
                 tasks (worker_step i s2) = tasks s2 \<and>
                 invoke_packaged t (worker_step i s2) = None))) \<and>
         (function (world s) \<noteq> None \<and> mcallback (world s) \<noteq> None \<longrightarrow>
          (\<exists>t. fst (dispatchCallback_member_callback function mcallback inst args s) =
                Future (state_ptr t) \<and>
              tasks (snd (dispatchCallback_member_callback function mcallback inst args s)) =
                tasks s @ [Some t] \<and>
              shared (snd (dispatchCallback_member_callback function mcallback inst args s))
                (state_ptr t) = NotReady \<and>
              (\<forall>i s2. i < length (workers s2) \<and> workers s2 ! i = Thread (Popped (Some t)) \<and>
                      shared s2 (state_ptr t) = NotReady \<longrightarrow>
                 callback_contract (\<lambda>w. invoke (function w) (args w) w)
                   (\<lambda>result w. invoke_mem_fn (mcallback w) (inst w) result w) (world s2)
                   (shared (worker_step i s2) (state_ptr t)) (world (worker_step i s2)) \<and>
                 workers (worker_step i s2) ! i = Thread Loop_top \<and>
                 tasks (worker_step i s2) = tasks s2 \<and>
                 invoke_packaged t (worker_step i s2) = None))) \<and>
         (mfunction (world s) \<noteq> None \<and> mcallback (world s) \<noteq> None \<longrightarrow>
          (\<exists>t. fst (dispatchCallback_member_both mfunction mcallback inst args s) =
                Future (state_ptr t) \<and>
              tasks (snd (dispatchCallback_member_both mfunction mcallback inst args s)) =
                tasks s @ [Some t] \<and>
              shared (snd (dispatchCallback_member_both mfunction mcallback inst args s))
                (state_ptr t) = NotReady \<and>
              (\<forall>i s2. i < length (workers s2) \<and> workers s2 ! i = Thread (Popped (Some t)) \<and>
                      shared s2 (state_ptr t) = NotReady \<longrightarrow>
                 callback_contract (\<lambda>w. invoke_mem_fn (mfunction w) (inst w) (args w) w)
                   (\<lambda>result w. invoke_mem_fn (mcallback w) (inst w) result w) (world s2)
                   (shared (worker_step i s2) (state_ptr t)) (world (worker_step i s2)) \<and>
                 workers (worker_step i s2) ! i = Thread Loop_top \<and>
                 tasks (worker_step i s2) = tasks s2 \<and>
                 invoke_packaged t (worker_step i s2) = None)))"
proof -
  have called_once: "callback_contract T C (world s2)
        (shared (worker_step i s2) (state_ptr (Packaged_task (Returns_void (task_then_callback T C)) p)))
        (world (worker_step i s2)) \<and>
      workers (worker_step i s2) ! i = Thread Loop_top \<and>
      tasks (worker_step i s2) = tasks s2 \<and>
      invoke_packaged (Packaged_task (Returns_void (task_then_callback T C)) p)
        (worker_step i s2) = None"
    if "i < length (workers s2) \<and>
        workers s2 ! i = Thread (Popped (Some (Packaged_task (Returns_void (task_then_callback T C)) p))) \<and>
        shared s2 (state_ptr (Packaged_task (Returns_void (task_then_callback T C)) p)) = NotReady"
    for T :: "('w, 'e, 'x) call" and C :: "'x \<Rightarrow> ('w, 'e, 'c) call"
      and s2 :: "('w, 'e, 'r) pool" and i p
  proof -
    let ?t = "Packaged_task (Returns_void (task_then_callback T C)) p :: ('w, 'e, 'r) packaged_task"
    from that have i: "i < length (workers s2)" and w: "workers s2 ! i = Thread (Popped (Some ?t))"
      and n: "shared s2 (state_ptr ?t) = NotReady" and n': "shared s2 p = NotReady"
      by simp_all
    note e = worker_step_Popped [OF i w n]
    have "callback_contract T C (world s2) (shared (worker_step i s2) p) (world (worker_step i s2))"
      using i w n' by (rule callback_task_called)
    moreover have "workers (worker_step i s2) ! i = Thread Loop_top" using i by (subst e) simp
    moreover have "tasks (worker_step i s2) = tasks s2" by (subst e) simp
    moreover have "invoke_packaged ?t (worker_step i s2) = None"
      by (subst e) (simp add: invoke_packaged_eq run_stored_ready del: run_stored.simps)
    ultimately show ?thesis by simp
  qed
  show ?thesis
  proof (intro conjI)
    let ?T = "\<lambda>w. invoke (function w) (args w) w"
    let ?C = "\<lambda>result w. call_through (callback w) result w"
    let ?t = "Packaged_task (Returns_void (task_then_callback ?T ?C)) (next_shared s)
      :: ('w, 'e, 'r) packaged_task"
    show "function (world s) \<noteq> None \<and> callback (world s) \<noteq> None \<longrightarrow>
      (\<exists>t. fst (dispatchCallback function callback args s) = Future (state_ptr t) \<and>
        tasks (snd (dispatchCallback function callback args s)) = tasks s @ [Some t] \<and>
        shared (snd (dispatchCallback function callback args s)) (state_ptr t) = NotReady \<and>
        (\<forall>i s2. i < length (workers s2) \<and> workers s2 ! i = Thread (Popped (Some t)) \<and>
                shared s2 (state_ptr t) = NotReady \<longrightarrow>
           callback_contract ?T ?C (world s2)
             (shared (worker_step i s2) (state_ptr t)) (world (worker_step i s2)) \<and>
           workers (worker_step i s2) ! i = Thread Loop_top \<and>
           tasks (worker_step i s2) = tasks s2 \<and>
           invoke_packaged t (worker_step i s2) = None))"
    proof (intro impI exI [of _ ?t] conjI allI)
      assume nn: "function (world s) \<noteq> None \<and> callback (world s) \<noteq> None"
      show "fst (dispatchCallback function callback args s) = Future (state_ptr ?t)"
        "tasks (snd (dispatchCallback function callback args s)) = tasks s @ [Some ?t]"
        "shared (snd (dispatchCallback function callback args s)) (state_ptr ?t) = NotReady"
        by (simp_all add: push_simps
            dispatchCallback_push [where fn = "function" and cb = callback and s = s, OF nn [THEN conjunct1] nn [THEN conjunct2]])
    qed (use called_once [of _ _ ?T ?C "next_shared s"] in blast)+
  next
    let ?T = "\<lambda>w. invoke (function w) (args w) w"
    let ?C = "\<lambda>result w. invoke_mem_fn (mcallback w) (inst w) result w"
    let ?t = "Packaged_task (Returns_void (task_then_callback ?T ?C)) (next_shared s)
      :: ('w, 'e, 'r) packaged_task"
    show "function (world s) \<noteq> None \<and> mcallback (world s) \<noteq> None \<longrightarrow>
      (\<exists>t. fst (dispatchCallback_member_callback function mcallback inst args s) =
          Future (state_ptr t) \<and>
        tasks (snd (dispatchCallback_member_callback function mcallback inst args s)) =
          tasks s @ [Some t] \<and>
        shared (snd (dispatchCallback_member_callback function mcallback inst args s))
          (state_ptr t) = NotReady \<and>
        (\<forall>i s2. i < length (workers s2) \<and> workers s2 ! i = Thread (Popped (Some t)) \<and>
                shared s2 (state_ptr t) = NotReady \<longrightarrow>
           callback_contract ?T ?C (world s2)
             (shared (worker_step i s2) (state_ptr t)) (world (worker_step i s2)) \<and>
           workers (worker_step i s2) ! i = Thread Loop_top \<and>
           tasks (worker_step i s2) = tasks s2 \<and>
           invoke_packaged t (worker_step i s2) = None))"
    proof (intro impI exI [of _ ?t] conjI allI)
      assume nn: "function (world s) \<noteq> None \<and> mcallback (world s) \<noteq> None"
      show "fst (dispatchCallback_member_callback function mcallback inst args s) =
          Future (state_ptr ?t)"
        "tasks (snd (dispatchCallback_member_callback function mcallback inst args s)) =
          tasks s @ [Some ?t]"
        "shared (snd (dispatchCallback_member_callback function mcallback inst args s))
          (state_ptr ?t) = NotReady"
        by (simp_all add: push_simps
            dispatchCallback_member_callback_push [where fn = "function" and mcb = mcallback and s = s, OF nn [THEN conjunct1] nn [THEN conjunct2]])
    qed (use called_once [of _ _ ?T ?C "next_shared s"] in blast)+
  next
    let ?T = "\<lambda>w. invoke_mem_fn (mfunction w) (inst w) (args w) w"
    let ?C = "\<lambda>result w. invoke_mem_fn (mcallback w) (inst w) result w"
    let ?t = "Packaged_task (Returns_void (task_then_callback ?T ?C)) (next_shared s)
      :: ('w, 'e, 'r) packaged_task"
    show "mfunction (world s) \<noteq> None \<and> mcallback (world s) \<noteq> None \<longrightarrow>
      (\<exists>t. fst (dispatchCallback_member_both mfunction mcallback inst args s) =
          Future (state_ptr t) \<and>
        tasks (snd (dispatchCallback_member_both mfunction mcallback inst args s)) =
          tasks s @ [Some t] \<and>
        shared (snd (dispatchCallback_member_both mfunction mcallback inst args s))
          (state_ptr t) = NotReady \<and>
        (\<forall>i s2. i < length (workers s2) \<and> workers s2 ! i = Thread (Popped (Some t)) \<and>
                shared s2 (state_ptr t) = NotReady \<longrightarrow>
           callback_contract ?T ?C (world s2)
             (shared (worker_step i s2) (state_ptr t)) (world (worker_step i s2)) \<and>
           workers (worker_step i s2) ! i = Thread Loop_top \<and>
           tasks (worker_step i s2) = tasks s2 \<and>
           invoke_packaged t (worker_step i s2) = None))"
    proof (intro impI exI [of _ ?t] conjI allI)
      assume nn: "mfunction (world s) \<noteq> None \<and> mcallback (world s) \<noteq> None"
      show "fst (dispatchCallback_member_both mfunction mcallback inst args s) =
          Future (state_ptr ?t)"
        "tasks (snd (dispatchCallback_member_both mfunction mcallback inst args s)) =
          tasks s @ [Some ?t]"
        "shared (snd (dispatchCallback_member_both mfunction mcallback inst args s))
          (state_ptr ?t) = NotReady"
        by (simp_all add: push_simps
            dispatchCallback_member_both_push [where mfn = mfunction and mcb = mcallback and s = s, OF nn [THEN conjunct1] nn [THEN conjunct2]])
    qed (use called_once [of _ _ ?T ?C "next_shared s"] in blast)+
  qed
qed

theorem callback_only_with_value_witness:
  "world (worker_step 0 (worker_step 0 (snd (dispatchCallback
      (unchanged (Some work4)) (unchanged (Some print_result)) (unchanged 3) started_pool)))) =
     [3, 4] \<and>
   shared (worker_step 0 (worker_step 0 (snd (dispatchCallback
      (unchanged (Some work4)) (unchanged (Some print_result)) (unchanged 3) started_pool)))) 0 =
     Ready_void \<and>
   world (worker_step 0 (worker_step 0 (snd (dispatchCallback_member_callback
      (unchanged (Some work4)) (unchanged (Some method_print)) (unchanged ()) (unchanged 3)
      started_pool)))) = [3, 4] \<and>
   shared (worker_step 0 (worker_step 0 (snd (dispatchCallback_member_callback
      (unchanged (Some work4)) (unchanged (Some method_print)) (unchanged ()) (unchanged 3)
      started_pool)))) 0 = Ready_void \<and>
   world (worker_step 0 (worker_step 0 (snd (dispatchCallback_member_both
      (unchanged (Some method_work4)) (unchanged (Some method_print)) (unchanged ()) (unchanged 3)
      started_pool)))) = [3, 4] \<and>
   shared (worker_step 0 (worker_step 0 (snd (dispatchCallback_member_both
      (unchanged (Some method_work4)) (unchanged (Some method_print)) (unchanged ()) (unchanged 3)
      started_pool)))) 0 = Ready_void \<and>
   world (worker_step 0 (worker_step 0 (snd (dispatchCallback
      (unchanged (Some failing)) (unchanged (Some print_result)) (unchanged 3) started_pool)))) =
     [3] \<and>
   shared (worker_step 0 (worker_step 0 (snd (dispatchCallback
      (unchanged (Some failing)) (unchanged (Some print_result)) (unchanged 3) started_pool)))) 0 =
     Ready_exception ''failed''"
proof -
  have run: "world (worker_step 0 (worker_step 0 s1)) = w' \<and>
      shared (worker_step 0 (worker_step 0 s1)) 0 = out"
    if ex: "\<exists>t. fut = Future (state_ptr t) \<and> tasks s1 = tasks started_pool @ [Some t] \<and>
        shared s1 (state_ptr t) = NotReady \<and>
        (\<forall>i s2. i < length (workers s2) \<and> workers s2 ! i = Thread (Popped (Some t)) \<and>
                shared s2 (state_ptr t) = NotReady \<longrightarrow>
           callback_contract T C (world s2)
             (shared (worker_step i s2) (state_ptr t)) (world (worker_step i s2)) \<and>
           workers (worker_step i s2) ! i = Thread Loop_top \<and>
           tasks (worker_step i s2) = tasks s2 \<and>
           invoke_packaged t (worker_step i s2) = None)"
      and frame: "fut = Future 0" "workers s1 = [Thread Loop_top, Thread Loop_top]"
        "isRunning s1" "world s1 = []"
      and c: "\<And>fut' w''. callback_contract T C [] fut' w'' \<Longrightarrow> w'' = w' \<and> fut' = out"
    for s1 :: "(int list, string, int) pool" and fut
      and T :: "(int list, string, int) call" and C :: "int \<Rightarrow> (int list, string, unit) call"
      and w' out
  proof -
    from ex obtain t where t: "fut = Future (state_ptr t)"
      and q: "tasks s1 = tasks started_pool @ [Some t]"
      and n: "shared s1 (state_ptr t) = NotReady"
      and k: "\<And>i s2. i < length (workers s2) \<Longrightarrow> workers s2 ! i = Thread (Popped (Some t)) \<Longrightarrow>
                shared s2 (state_ptr t) = NotReady \<Longrightarrow>
           callback_contract T C (world s2)
             (shared (worker_step i s2) (state_ptr t)) (world (worker_step i s2))"
      by blast
    from t frame(1) have p: "state_ptr t = 0" by simp
    from q have q': "tasks s1 = Some t # []" by (simp add: started_pool_def)
    let ?s2 = "s1\<lparr>tasks := [], workers := (workers s1)[0 := Thread (Popped (Some t))]\<rparr>"
    have s2: "worker_step 0 s1 = ?s2"
      using frame(3) _ _ q' by (rule worker_step_pops) (simp_all add: frame(2))
    have "callback_contract T C (world ?s2)
        (shared (worker_step 0 ?s2) (state_ptr t)) (world (worker_step 0 ?s2))"
      by (rule k) (simp_all add: frame(2) n)
    then have "callback_contract T C [] (shared (worker_step 0 ?s2) 0) (world (worker_step 0 ?s2))"
      by (simp add: frame(4) p)
    from c [OF this] show ?thesis by (simp only: s2)
  qed
  have nn: "unchanged (Some work4) (world started_pool) \<noteq> None"
    "unchanged (Some failing) (world started_pool) \<noteq> None"
    "unchanged (Some method_work4) (world started_pool) \<noteq> None"
    "unchanged (Some print_result) (world started_pool) \<noteq> None"
    "unchanged (Some method_print) (world started_pool) \<noteq> None"
    by (simp_all add: unchanged_def)
  note th = callback_only_with_value [of "unchanged (Some work4)" started_pool
      "unchanged (Some print_result)" "unchanged 3" "unchanged (Some method_print)"
      "unchanged ()" "unchanged (Some method_work4)"]
  note th' = callback_only_with_value [of "unchanged (Some failing)" started_pool
      "unchanged (Some print_result)" "unchanged 3" "unchanged (Some method_print)"
      "unchanged ()" "unchanged (Some method_work4)"]
  have a: "world (worker_step 0 (worker_step 0 (snd (dispatchCallback
        (unchanged (Some work4)) (unchanged (Some print_result)) (unchanged 3) started_pool)))) =
       [3, 4] \<and>
     shared (worker_step 0 (worker_step 0 (snd (dispatchCallback
        (unchanged (Some work4)) (unchanged (Some print_result)) (unchanged 3) started_pool)))) 0 =
       Ready_void"
    by (rule run [OF th [THEN conjunct1, THEN mp, OF conjI [OF nn(1) nn(4)]]])
       (simp_all add: dispatchCallback_def unchanged_def make_shared_packaged_task_def
          get_future_def pushTask_def notify_one_def started_pool_def callback_contract_def
          invoke_def work4_def print_result_def)
  have b: "world (worker_step 0 (worker_step 0 (snd (dispatchCallback_member_callback
        (unchanged (Some work4)) (unchanged (Some method_print)) (unchanged ()) (unchanged 3)
        started_pool)))) = [3, 4] \<and>
     shared (worker_step 0 (worker_step 0 (snd (dispatchCallback_member_callback
        (unchanged (Some work4)) (unchanged (Some method_print)) (unchanged ()) (unchanged 3)
        started_pool)))) 0 = Ready_void"
    by (rule run [OF th [THEN conjunct2, THEN conjunct1, THEN mp, OF conjI [OF nn(1) nn(5)]]])
       (simp_all add: dispatchCallback_member_callback_def unchanged_def
          make_shared_packaged_task_def get_future_def pushTask_def notify_one_def
          started_pool_def callback_contract_def invoke_def invoke_mem_fn_def work4_def
          print_result_def method_print_def)
  have c: "world (worker_step 0 (worker_step 0 (snd (dispatchCallback_member_both
        (unchanged (Some method_work4)) (unchanged (Some method_print)) (unchanged ()) (unchanged 3)
        started_pool)))) = [3, 4] \<and>
     shared (worker_step 0 (worker_step 0 (snd (dispatchCallback_member_both
        (unchanged (Some method_work4)) (unchanged (Some method_print)) (unchanged ()) (unchanged 3)
        started_pool)))) 0 = Ready_void"
    by (rule run [OF th [THEN conjunct2, THEN conjunct2, THEN mp, OF conjI [OF nn(3) nn(5)]]])
       (simp_all add: dispatchCallback_member_both_def unchanged_def
          make_shared_packaged_task_def get_future_def pushTask_def notify_one_def
          started_pool_def callback_contract_def invoke_def invoke_mem_fn_def work4_def
          print_result_def method_print_def method_work4_def)
  have d: "world (worker_step 0 (worker_step 0 (snd (dispatchCallback
        (unchanged (Some failing)) (unchanged (Some print_result)) (unchanged 3) started_pool)))) =
       [3] \<and>
     shared (worker_step 0 (worker_step 0 (snd (dispatchCallback
        (unchanged (Some failing)) (unchanged (Some print_result)) (unchanged 3) started_pool)))) 0 =
       Ready_exception ''failed''"
    by (rule run [OF th' [THEN conjunct1, THEN mp, OF conjI [OF nn(2) nn(4)]]])
       (simp_all add: dispatchCallback_def unchanged_def make_shared_packaged_task_def
          get_future_def pushTask_def notify_one_def started_pool_def callback_contract_def
          invoke_def failing_def print_result_def)
  from a b c d show ?thesis by blast
qed

text \<open>
  C4. A call to \<open>dispatch\<close> whose callable is a null handle returns the invalid future at
  once and leaves the whole state as it was: no packaged task is allocated, nothing is added
  to the queue, no thread is touched. The invalid future is told apart from the future of a
  task that is still pending, which is valid and whose shared state is not ready.
\<close>

theorem dispatch_null_callable:
  "(function (world s) = None \<longrightarrow> dispatch function args s = (Invalid, s)) \<and>
   \<not> valid Invalid \<and>
   (function (world s) \<noteq> None \<longrightarrow>
      (\<exists>p. fst (dispatch function args s) = Future p \<and> valid (Future p) \<and>
           shared (snd (dispatch function args s)) p = NotReady))"
  by (simp add: dispatch_def make_shared_packaged_task_def get_future_def pushTask_def
      notify_one_def)

theorem dispatch_null_callable_witness:
  "null_task (world started_pool) = None \<and>
   dispatch null_task (unchanged 1) started_pool = (Invalid, started_pool) \<and>
   unchanged (Some work) (world started_pool) \<noteq> None \<and>
   fst (dispatch (unchanged (Some work)) (unchanged 1) started_pool) \<noteq> Invalid"
proof -
  have n: "null_task (world started_pool) = None" by (simp add: null_task_def)
  have w: "unchanged (Some work) (world started_pool) \<noteq> None" by (simp add: unchanged_def)
  from dispatch_null_callable [of null_task started_pool "unchanged 1"] n
  have a: "dispatch null_task (unchanged 1) started_pool = (Invalid, started_pool)" by blast
  from dispatch_null_callable [of "unchanged (Some work)" started_pool "unchanged 1"] w
  obtain p where "fst (dispatch (unchanged (Some work)) (unchanged 1) started_pool) = Future p"
    by blast
  then have "fst (dispatch (unchanged (Some work)) (unchanged 1) started_pool) \<noteq> Invalid"
    by simp
  with n a w show ?thesis by blast
qed

text \<open>
  C5. Each overload of \<open>dispatchCallback\<close>, called with a callback handle that is null,
  returns the invalid future at once and leaves the whole state as it was, whether the task
  callable is null or not; so nothing was enqueued and any schedule runs from there as if the
  call had not been made.
\<close>

theorem dispatchCallback_null_callback:
  "(callback (world s) = None \<longrightarrow>
      dispatchCallback function callback args s = (Invalid, s) \<and>
      run acts (tr, snd (dispatchCallback function callback args s)) = run acts (tr, s)) \<and>
   (mcallback (world s) = None \<longrightarrow>
      dispatchCallback_member_callback function mcallback inst args s = (Invalid, s) \<and>
      dispatchCallback_member_both mfunction mcallback inst args s = (Invalid, s) \<and>
      run acts (tr, snd (dispatchCallback_member_callback function mcallback inst args s)) =
        run acts (tr, s) \<and>
      run acts (tr, snd (dispatchCallback_member_both mfunction mcallback inst args s)) =
        run acts (tr, s)) \<and>
   \<not> valid Invalid"
  by (simp add: dispatchCallback_def dispatchCallback_member_callback_def
      dispatchCallback_member_both_def)

theorem dispatchCallback_null_callback_witness:
  "null_callback (world started_pool) = None \<and> null_method (world started_pool) = None \<and>
   dispatchCallback (unchanged (Some work4)) null_callback (unchanged 3) started_pool =
     (Invalid, started_pool) \<and>
   dispatchCallback_member_callback (unchanged (Some work4)) null_method (unchanged ())
     (unchanged 3) started_pool = (Invalid, started_pool) \<and>
   dispatchCallback_member_both (unchanged (Some method_work4)) null_method (unchanged ())
     (unchanged 3) started_pool = (Invalid, started_pool)"
proof -
  have n: "null_callback (world started_pool) = None" "null_method (world started_pool) = None"
    by (simp_all add: null_callback_def null_method_def)
  from dispatchCallback_null_callback [of null_callback started_pool "unchanged (Some work4)"
      "unchanged 3" "[]" "[]" null_method "unchanged ()" "unchanged (Some method_work4)"] n
  show ?thesis by blast
qed

text \<open>
  C6, as the claim states it, fails, in two ways. In the pool of the demonstration program,
  two tasks are enqueued and dequeued in this order by the two workers, and the worker that
  dequeued the second task calls it before the other worker calls the first. And in a running
  pool without workers (\<^verbatim>\<open>hardware_concurrency()\<close> is 0) the two tasks are enqueued and no
  task is ever executed.
\<close>

theorem two_workers_call_out_of_order:
  "start (TaskManager 0 2 []) = Some started_pool \<and>
   enqueued (trace overtaking started_pool) = [0, 1] \<and>
   dequeued (trace overtaking started_pool) = [0, 1] \<and>
   called (trace overtaking started_pool) = [1, 0] \<and>
   start (TaskManager 0 0 []) = Some no_workers \<and>
   enqueued (trace (two_tasks @ rounds 4 1) no_workers) = [0, 1] \<and>
   called (trace (two_tasks @ rounds 4 1) no_workers) = []"
  by (simp add: start_eq TaskManager_def numeral_2_eq_2
      trace_def overtaking_def two_tasks_def started_pool_def push_def make_shared_packaged_task_def
      pushTask_def notify_one_def worker_step_def critical_section_def set_worker_def execute_def
      invoke_packaged_eq observe_critical_def invoke_def work_def no_workers_def rounds_def
      one_round_def numeral_eq_Suc)

text \<open>
  C6, amended. In every schedule of worker steps, wake-ups, pushes and assignments from a
  freshly started pool: the tasks are dequeued in the order in which they were enqueued (the
  tasks enqueued are those dequeued so far followed by those still queued), no task is
  enqueued twice, every task dequeued has been called or is held by a worker that has not
  called it yet, no task is called twice or by two workers, the future of a task that was
  called is ready and that of a task not yet called is pending, and no worker was terminated.
  When the pool has at least one worker, every task enqueued is executed, exactly once: after
  rounds of the workers, as many as there is work pending, the tasks called are the tasks
  enqueued, each once, and the queue is empty. In a pool with one worker the tasks are called
  in the order in which they were enqueued; with several workers the calls may start in
  another order.
\<close>

theorem dequeued_in_order_called_once:
  assumes "start (TaskManager size_arg hw w) = Some s0"
    and "tr = trace acts s0" and "s = final acts s0"
  shows "enqueued tr = dequeued tr @ map state_ptr (queued s) \<and>
         distinct (enqueued tr) \<and>
         mset (dequeued tr) = mset (called tr) + mset (map state_ptr (held s)) \<and>
         distinct (called tr) \<and>
         (\<forall>i j p. Called i p \<in> set tr \<and> Called j p \<in> set tr \<longrightarrow> i = j) \<and>
         (\<forall>p \<in> set (called tr). shared s p \<noteq> NotReady) \<and>
         (\<forall>t \<in> set (queued s) \<union> set (held s). shared s (state_ptr t) = NotReady) \<and>
         Thread Terminated \<notin> set (workers s) \<and>
         (poolSize s0 \<le> 1 \<longrightarrow> dequeued tr = called tr @ map state_ptr (held s)) \<and>
         (0 < poolSize s0 \<longrightarrow>
            (\<forall>k. pending s \<le> k \<longrightarrow>
               mset (called (trace (acts @ rounds k (length (workers s))) s0)) = mset (enqueued tr) \<and>
               distinct (called (trace (acts @ rounds k (length (workers s))) s0)) \<and>
               tasks (final (acts @ rounds k (length (workers s))) s0) = [])) \<and>
         (poolSize s0 = 1 \<longrightarrow>
            (\<forall>k. pending s \<le> k \<longrightarrow>
               called (trace (acts @ rounds k (length (workers s))) s0) = enqueued tr))"
proof -
  note st = started_consistent [OF assms(1)]
  have tr: "consistent (trace acts' s0) (final acts' s0)" for acts'
    unfolding trace_def final_def using st(1) by (rule consistent_run)
  then have c: "consistent tr s" by (simp add: assms(2,3))
  then have d: "distinct (called tr)" by (rule consistent_distinct_called)
  then have o: "\<forall>i j p. Called i p \<in> set tr \<and> Called j p \<in> set tr \<longrightarrow> i = j"
    by (blast dest: distinct_called_one_worker)
  have ord: "poolSize s0 \<le> 1 \<longrightarrow> in_order (trace acts' s0) (final acts' s0)" for acts'
    unfolding trace_def final_def using st(2,4) by (auto intro: ordered_run)
  then have io: "poolSize s0 \<le> 1 \<longrightarrow> dequeued tr = called tr @ map state_ptr (held s)"
    by (simp add: in_order_def assms(2,3))
  from c have wf: "well_formed s" and de: "distinct (enqueued tr)"
    and eq: "enqueued tr = dequeued tr @ map state_ptr (queued s)"
    and ms: "mset (dequeued tr) = mset (called tr) + mset (map state_ptr (held s))"
    and rd: "\<forall>p \<in> set (called tr). shared s p \<noteq> NotReady"
    unfolding consistent_def by blast+
  from wf have nt: "Thread Terminated \<notin> set (workers s)"
    and lv: "\<forall>p \<in> set (live s). shared s p = NotReady"
    unfolding well_formed_def by blast+
  from lv have nr: "\<forall>t \<in> set (queued s) \<union> set (held s). shared s (state_ptr t) = NotReady"
    by (auto simp add: live_def)
  have live: "mset (called (trace (acts @ rounds k (length (workers s))) s0)) = mset (enqueued tr) \<and>
      distinct (called (trace (acts @ rounds k (length (workers s))) s0)) \<and>
      tasks (final (acts @ rounds k (length (workers s))) s0) = [] \<and>
      held (final (acts @ rounds k (length (workers s))) s0) = [] \<and>
      enqueued (trace (acts @ rounds k (length (workers s))) s0) = enqueued tr"
    if pw: "0 < poolSize s0" and k: "pending s \<le> k" for k
  proof -
    let ?r = "rounds k (length (workers s)) :: ('a, 'b, 'c) action list"
    note aw = started_awake [OF assms(1) pw]
    from run_invariants(2,3) [OF st(1) aw(2) aw(1), of acts]
    have r: "running s" and a: "awake s" by (simp_all add: assms(3))
    have e: "trace (acts @ ?r) s0 = tr @ trace ?r s" "final (acts @ ?r) s0 = final ?r s"
      by (simp_all add: trace_append final_append assms(2,3))
    note ac = all_called [OF c r a k]
    have "distinct (called (trace (acts @ ?r) s0))"
      by (rule consistent_distinct_called) (rule tr)
    with ac show ?thesis by (simp add: e enqueued_append enqueued_rounds)
  qed
  have one: "called (trace (acts @ rounds k (length (workers s))) s0) = enqueued tr"
    if p1: "poolSize s0 = 1" and k: "pending s \<le> k" for k
  proof -
    let ?a = "acts @ rounds k (length (workers s)) :: ('a, 'b, 'c) action list"
    from p1 have pw: "0 < poolSize s0" by simp
    from live [OF pw k] have t: "tasks (final ?a s0) = []" and h: "held (final ?a s0) = []"
      and en: "enqueued (trace ?a s0) = enqueued tr"
      by simp_all
    from ord [of ?a] p1 have "dequeued (trace ?a s0) = called (trace ?a s0)"
      by (simp add: in_order_def h)
    moreover from tr [of ?a]
    have "enqueued (trace ?a s0) = dequeued (trace ?a s0) @ map state_ptr (queued (final ?a s0))"
      unfolding consistent_def by blast
    then have "enqueued (trace ?a s0) = dequeued (trace ?a s0)" by (simp add: queued_def t)
    ultimately show ?thesis using en by simp
  qed
  from live have live': "0 < poolSize s0 \<longrightarrow>
      (\<forall>k. pending s \<le> k \<longrightarrow>
         mset (called (trace (acts @ rounds k (length (workers s))) s0)) = mset (enqueued tr) \<and>
         distinct (called (trace (acts @ rounds k (length (workers s))) s0)) \<and>
         tasks (final (acts @ rounds k (length (workers s))) s0) = [])"
    by blast
  from one have one': "poolSize s0 = 1 \<longrightarrow>
      (\<forall>k. pending s \<le> k \<longrightarrow>
         called (trace (acts @ rounds k (length (workers s))) s0) = enqueued tr)"
    by blast
  from eq de ms d o rd nr nt io live' one' show ?thesis by blast
qed

theorem dequeued_in_order_called_once_witness:
  "start (TaskManager 0 1 []) = Some single_pool \<and> poolSize single_pool = 1 \<and>
   pending (final two_tasks single_pool) \<le> 4 \<and>
   enqueued (trace two_tasks single_pool) = [0, 1] \<and>
   called (trace (two_tasks @ rounds 4 1) single_pool) = [0, 1] \<and>
   tasks (final (two_tasks @ rounds 4 1) single_pool) = []"
proof -
  have st: "start (TaskManager 0 1 []) = Some single_pool"
    by (simp add: start_eq TaskManager_def single_pool_def)
  have ps: "poolSize single_pool = 1" "0 < poolSize single_pool" by (simp_all add: single_pool_def)
  have ev: "enqueued (trace two_tasks single_pool) = [0, 1]"
    "pending (final two_tasks single_pool) \<le> 4"
    "length (workers (final two_tasks single_pool)) = 1"
    by (simp_all add: trace_def final_def two_tasks_def single_pool_def push_def
        make_shared_packaged_task_def pushTask_def notify_one_def pending_def)
  note th = dequeued_in_order_called_once [OF st refl refl, of two_tasks]
  from th ps(1) ev(2)
  have "called (trace (two_tasks @ rounds 4 (length (workers (final two_tasks single_pool))))
      single_pool) = enqueued (trace two_tasks single_pool)"
    by blast
  then have a: "called (trace (two_tasks @ rounds 4 1) single_pool) = [0, 1]"
    by (simp only: ev)
  from th ps(2) ev(2)
  have "tasks (final (two_tasks @ rounds 4 (length (workers (final two_tasks single_pool))))
      single_pool) = []"
    by blast
  then have b: "tasks (final (two_tasks @ rounds 4 1) single_pool) = []"
    by (simp only: ev)
  from st ps ev a b show ?thesis by blast
qed

text \<open>
  C7. \<open>start\<close> returns as soon as the handles are joinable, which they are from their
  construction: for the pool of the demonstration program it returns with both workers at the
  head of their loop, none of them waiting on the condition variable, and the
  \<^verbatim>\<open>notify_all\<close> of a \<open>stop\<close> issued then reaches no worker.
\<close>

theorem start_returns_before_workers_wait:
  "start (TaskManager 0 2 []) = Some started_pool \<and>
   Thread Blocked \<notin> set (workers started_pool) \<and>
   workers (shutdown_signal started_pool) = workers started_pool"
  by (simp add: start_eq TaskManager_def started_pool_def shutdown_signal_def notify_all_def
      numeral_2_eq_2)



text \<open>
  C9. The destructor calls \<open>stop\<close> when the running flag is set, and then, from a well-formed
  state, it returns with the flag cleared and every handle joined; when the flag is not set
  it does nothing.
\<close>

theorem destructor_stops_running_pool:
  "(isRunning s \<longrightarrow> destroy s = stop s) \<and>
   (\<not> isRunning s \<longrightarrow> destroy s = Some s) \<and>
   (isRunning s \<and> well_formed s \<longrightarrow>
      (\<exists>s'. destroy s = Some s' \<and> \<not> isRunning s' \<and>
            workers s' = replicate (length (workers s)) Not_a_thread))"
  using stop_joins_all [of s] by (auto simp add: destroy_def)

theorem destructor_stops_running_pool_witness:
  "isRunning started_pool \<and> well_formed started_pool \<and>
   (\<exists>s'. destroy started_pool = Some s' \<and> \<not> isRunning s' \<and>
         workers s' = [Not_a_thread, Not_a_thread]) \<and>
   destroy (TaskManager 2 2 [] :: (int list, string, int) pool) = Some (TaskManager 2 2 [])"
proof -
  have r: "isRunning started_pool" by (simp add: started_pool_def)
  have wf: "well_formed started_pool"
    by (simp add: well_formed_def live_def held_def queued_def started_pool_def)
  from r wf destructor_stops_running_pool [of started_pool]
  have "\<exists>s'. destroy started_pool = Some s' \<and> \<not> isRunning s' \<and>
      workers s' = replicate (length (workers started_pool)) Not_a_thread"
    by blast
  then have a: "\<exists>s'. destroy started_pool = Some s' \<and> \<not> isRunning s' \<and>
      workers s' = [Not_a_thread, Not_a_thread]"
    by (simp add: started_pool_def)
  let ?p = "TaskManager 2 2 [] :: (int list, string, int) pool"
  have "\<not> isRunning ?p" by (simp add: TaskManager_def)
  with destructor_stops_running_pool [of ?p] have "destroy ?p = Some ?p" by blast
  with r wf a show ?thesis by blast
qed

text \<open>
  C10. A worker that dequeues an empty function object skips the call and is back at the
  head of its loop: after its two steps only the queue has lost that element; the world and
  the shared states are untouched, the worker has neither returned nor been terminated, and
  no call was observed.
\<close>

theorem null_unit_skipped:
  assumes "i < length (workers s)"
    and "workers s ! i = Thread Loop_top \<or> workers s ! i = Thread Woken"
    and "isRunning s" and "tasks s = None # q"
  shows "worker_step i s = s\<lparr>tasks := q, workers := (workers s)[i := Thread (Popped None)]\<rparr> \<and>
         worker_step i (worker_step i s) = s\<lparr>tasks := q, workers := (workers s)[i := Thread Loop_top]\<rparr> \<and>
         called (fst (run [Step i, Step i] ([], s))) = []"
  using assms
  by (auto simp add: worker_step_def critical_section_def set_worker_def execute_def
      observe_critical_def)

theorem null_unit_skipped_witness:
  "worker_step 0 (worker_step 0 (started_pool\<lparr>tasks := [None]\<rparr>)) = started_pool \<and>
   called (fst (run [Step 0, Step 0] ([], started_pool\<lparr>tasks := [None]\<rparr>))) = []"
proof -
  let ?s = "started_pool\<lparr>tasks := [None]\<rparr>"
  let ?s' = "?s\<lparr>tasks := [], workers := (workers ?s)[0 := Thread Loop_top]\<rparr>"
  have "worker_step 0 ?s = ?s\<lparr>tasks := [], workers := (workers ?s)[0 := Thread (Popped None)]\<rparr> \<and>
        worker_step 0 (worker_step 0 ?s) = ?s' \<and>
        called (fst (run [Step 0, Step 0] ([], ?s))) = []"
    by (rule null_unit_skipped) (simp_all add: started_pool_def)
  then have a: "worker_step 0 (worker_step 0 ?s) = ?s'"
    and b: "called (fst (run [Step 0, Step 0] ([], ?s))) = []"
    by blast+
  have eq: "?s' = started_pool" by (simp add: started_pool_def)
  from a b show ?thesis unfolding eq by (rule conjI)
qed

end
